theory Spec2Isabelle
  imports Complex_Main "HOL-Library.AList"
begin

section \<open>Host functions and number formatting\<close>

text \<open>
  The TypeScript sources rely on three services of the JavaScript runtime that the
  repository does not define: parsing a date string (\<^verbatim>\<open>new Date(s).getTime()\<close>), printing
  a date (\<^verbatim>\<open>toISOString\<close>) and printing a non-integral number. They are taken as the
  fields of a parameter \<open>h\<close>; every statement below holds for every such \<open>h\<close> unless it
  says which property of the runtime it uses. A \<^verbatim>\<open>number\<close> is a \<open>real\<close> (rounding of
  doubles is not modelled), an instant is its millisecond count, an \<open>int\<close>; \<open>None\<close> stands
  for \<^verbatim>\<open>NaN\<close> (an invalid date).
\<close>

record host =
  date_parse :: "string \<Rightarrow> int option"
  date_to_iso :: "int \<Rightarrow> string"
  frac_to_string :: "real \<Rightarrow> string"

definition digit_char :: "nat \<Rightarrow> char" where
  "digit_char d = ''0123456789'' ! d"

function nat_to_string :: "nat \<Rightarrow> string" where
  "nat_to_string n =
     (if n < 10 then [digit_char n] else nat_to_string (n div 10) @ [digit_char (n mod 10)])"
  by pat_completeness auto
termination
  by (relation "measure (\<lambda>n. n)") auto

declare nat_to_string.simps [simp del]

definition int_to_string :: "int \<Rightarrow> string" where
  "int_to_string i = (if i < 0 then CHR ''-'' # nat_to_string (nat (- i)) else nat_to_string (nat i))"

text \<open>Template literals and \<^verbatim>\<open>String(n)\<close> on a number: decimal digits for an integral value.\<close>

definition number_to_string :: "host \<Rightarrow> real \<Rightarrow> string" where
  "number_to_string h r =
     (if r = of_int \<lfloor>r\<rfloor> then int_to_string \<lfloor>r\<rfloor> else frac_to_string h r)"

section \<open>TelemetryFrame (domain/entities/TelemetryFrame.ts)\<close>

record TelemetryFrame =
  timestamp :: int
  vehicleId :: string
  lap :: real
  speed :: real
  throttlePos :: real
  brakePos :: real
  gpsLatitude :: real
  gpsLongitude :: real
  steeringAngle :: "real option"
  gear :: "real option"

section \<open>TelemetryRepository (infrastructure/repositories/TelemetryRepository.ts)\<close>

text \<open>
  The nested \<^verbatim>\<open>Map<string, Map<number, TelemetryFrame[]>>\<close> is an association list of
  association lists in insertion order, as a JavaScript \<^verbatim>\<open>Map\<close> iterates. \<^verbatim>\<open>Array.sort\<close> with
  the timestamp comparator is stable, as is \<open>sort_key\<close>.
\<close>

type_synonym TelemetryRepository = "(string \<times> (real \<times> TelemetryFrame list) list) list"

definition repo_getTelemetryByVehicleAndLap ::
  "TelemetryRepository \<Rightarrow> string \<Rightarrow> real \<Rightarrow> TelemetryFrame list" where
  "repo_getTelemetryByVehicleAndLap repo v l =
     (case map_of repo v of
        None \<Rightarrow> []
      | Some vehicleData \<Rightarrow> (case map_of vehicleData l of None \<Rightarrow> [] | Some lapData \<Rightarrow> lapData))"

text \<open>A \<^verbatim>\<open>Date\<close> argument is \<open>Some ms\<close>, or \<open>None\<close> when it is an invalid date: every
  comparison with it is then false.\<close>

definition in_range :: "int option \<Rightarrow> int option \<Rightarrow> TelemetryFrame \<Rightarrow> bool" where
  "in_range startTime endTime f =
     (case (startTime, endTime) of
        (Some s, Some e) \<Rightarrow> s \<le> timestamp f \<and> timestamp f \<le> e
      | _ \<Rightarrow> False)"

definition repo_getTelemetryByTimeRange ::
  "TelemetryRepository \<Rightarrow> string \<Rightarrow> int option \<Rightarrow> int option \<Rightarrow> TelemetryFrame list" where
  "repo_getTelemetryByTimeRange repo v startTime endTime =
     (case map_of repo v of
        None \<Rightarrow> []
      | Some vehicleData \<Rightarrow>
          sort_key timestamp (filter (in_range startTime endTime) (concat (map snd vehicleData))))"

definition repo_getAllVehicleIds :: "TelemetryRepository \<Rightarrow> string list" where
  "repo_getAllVehicleIds repo = map fst repo"

definition repo_getMaxLapNumber :: "TelemetryRepository \<Rightarrow> string \<Rightarrow> real" where
  "repo_getMaxLapNumber repo v =
     (case map_of repo v of
        None \<Rightarrow> 0
      | Some vehicleData \<Rightarrow>
          (case map fst vehicleData of [] \<Rightarrow> 0 | k # ks \<Rightarrow> fold max ks k))"

definition save_frame :: "TelemetryFrame \<Rightarrow> TelemetryRepository \<Rightarrow> TelemetryRepository" where
  "save_frame f repo =
     (let vehicleData = (case map_of repo (vehicleId f) of None \<Rightarrow> [] | Some vd \<Rightarrow> vd);
          lapData = (case map_of vehicleData (lap f) of None \<Rightarrow> [] | Some ld \<Rightarrow> ld)
      in AList.update (vehicleId f) (AList.update (lap f) (lapData @ [f]) vehicleData) repo)"

definition repo_saveTelemetry :: "TelemetryRepository \<Rightarrow> TelemetryFrame list \<Rightarrow> TelemetryRepository" where
  "repo_saveTelemetry repo frames =
     map (\<lambda>(v, vehicleData). (v, map (\<lambda>(l, lapData). (l, sort_key timestamp lapData)) vehicleData))
       (fold save_frame frames repo)"

definition repo_clear :: "TelemetryRepository \<Rightarrow> TelemetryRepository" where
  "repo_clear repo = []"

section \<open>TelemetryCache (infrastructure/cache/TelemetryCache.ts)\<close>

text \<open>
  Cache nodes are JavaScript objects that the list links and the map entries share, so
  they live in a store: \<open>nodes\<close> maps an address to the node's fields, \<open>fresh\<close> is the next
  unused address, and \<^verbatim>\<open>===\<close> on nodes is equality of addresses. The \<^verbatim>\<open>Map<string,
  CacheEntry>\<close> is an association list; its \<^verbatim>\<open>size\<close> is the length of the list.
\<close>

record CacheNode =
  node_key :: string
  node_prev :: "nat option"
  node_next :: "nat option"

record CacheEntry =
  entry_data :: "TelemetryFrame list"
  entry_node :: nat

record TelemetryCache =
  repository :: TelemetryRepository
  cache :: "(string \<times> CacheEntry) list"
  maxSize :: int
  head :: "nat option"
  tail :: "nat option"
  nodes :: "nat \<Rightarrow> CacheNode"
  fresh :: nat

definition new_cache :: "TelemetryRepository \<Rightarrow> int \<Rightarrow> TelemetryCache" where
  "new_cache repo m =
     \<lparr>repository = repo, cache = [], maxSize = m, head = None, tail = None,
      nodes = (\<lambda>_. \<lparr>node_key = [], node_prev = None, node_next = None\<rparr>), fresh = 0\<rparr>"

definition set_prev :: "nat \<Rightarrow> nat option \<Rightarrow> TelemetryCache \<Rightarrow> TelemetryCache" where
  "set_prev a p st = st\<lparr>nodes := (nodes st)(a := (nodes st a)\<lparr>node_prev := p\<rparr>)\<rparr>"

definition set_next :: "nat \<Rightarrow> nat option \<Rightarrow> TelemetryCache \<Rightarrow> TelemetryCache" where
  "set_next a n st = st\<lparr>nodes := (nodes st)(a := (nodes st a)\<lparr>node_next := n\<rparr>)\<rparr>"

definition addToFront :: "nat \<Rightarrow> TelemetryCache \<Rightarrow> TelemetryCache" where
  "addToFront n st =
     (let st1 = set_next n (head st) st;
          st2 = set_prev n None st1;
          st3 = (case head st2 of Some old \<Rightarrow> set_prev old (Some n) st2 | None \<Rightarrow> st2);
          st4 = st3\<lparr>head := Some n\<rparr>
      in (case tail st4 of None \<Rightarrow> st4\<lparr>tail := Some n\<rparr> | Some t \<Rightarrow> st4))"

definition unlink :: "nat \<Rightarrow> TelemetryCache \<Rightarrow> TelemetryCache" where
  "unlink n st =
     (let st1 = (case node_prev (nodes st n) of
                   Some p \<Rightarrow> set_next p (node_next (nodes st n)) st | None \<Rightarrow> st)
      in (case node_next (nodes st1 n) of
            Some q \<Rightarrow> set_prev q (node_prev (nodes st1 n)) st1 | None \<Rightarrow> st1))"

definition moveToFront :: "string \<Rightarrow> TelemetryCache \<Rightarrow> TelemetryCache" where
  "moveToFront k st =
     (case map_of (cache st) k of
        None \<Rightarrow> st
      | Some entry \<Rightarrow>
          (let n = entry_node entry;
               st1 = unlink n st;
               st2 = (if tail st1 = Some n then st1\<lparr>tail := node_prev (nodes st1 n)\<rparr> else st1)
           in addToFront n st2))"

definition remove :: "string \<Rightarrow> TelemetryCache \<Rightarrow> TelemetryCache" where
  "remove k st =
     (case map_of (cache st) k of
        None \<Rightarrow> st
      | Some entry \<Rightarrow>
          (let n = entry_node entry;
               st1 = unlink n st;
               st2 = (if head st1 = Some n then st1\<lparr>head := node_next (nodes st1 n)\<rparr> else st1)
           in (if tail st2 = Some n then st2\<lparr>tail := node_prev (nodes st2 n)\<rparr> else st2)))"

definition removeTail :: "TelemetryCache \<Rightarrow> TelemetryCache" where
  "removeTail st =
     (case tail st of
        None \<Rightarrow> st
      | Some t \<Rightarrow>
          (case node_prev (nodes st t) of
             Some p \<Rightarrow> (set_next p None st)\<lparr>tail := Some p\<rparr>
           | None \<Rightarrow> st\<lparr>head := None, tail := None\<rparr>))"

definition cache_set :: "string \<Rightarrow> TelemetryFrame list \<Rightarrow> TelemetryCache \<Rightarrow> TelemetryCache" where
  "cache_set k d st =
     (let st1 = (if map_of (cache st) k \<noteq> None then remove k st else st);
          st2 = (case tail st1 of
                   Some t \<Rightarrow>
                     (if int (length (cache st1)) \<ge> maxSize st1
                      then removeTail (st1\<lparr>cache := AList.delete (node_key (nodes st1 t)) (cache st1)\<rparr>)
                      else st1)
                 | None \<Rightarrow> st1);
          n = fresh st2;
          st3 = st2\<lparr>nodes := (nodes st2)(n := \<lparr>node_key = k, node_prev = None, node_next = None\<rparr>),
                    fresh := Suc n\<rparr>;
          st4 = st3\<lparr>cache := AList.update k \<lparr>entry_data = d, entry_node = n\<rparr> (cache st3)\<rparr>
      in addToFront n st4)"

definition cache_key :: "host \<Rightarrow> string \<Rightarrow> real \<Rightarrow> string" where
  "cache_key h v l = v @ ''-'' @ number_to_string h l"

text \<open>On a hit the entry is read again after \<open>moveToFront\<close>, which leaves the map as it is
  (lemma \<open>moveToFront_fields\<close>): it is the entry found before.\<close>

definition cache_getTelemetryByVehicleAndLap ::
  "host \<Rightarrow> string \<Rightarrow> real \<Rightarrow> TelemetryCache \<Rightarrow> TelemetryFrame list \<times> TelemetryCache" where
  "cache_getTelemetryByVehicleAndLap h v l st =
     (let k = cache_key h v l
      in (case map_of (cache st) k of
            Some entry \<Rightarrow> (entry_data entry, moveToFront k st)
          | None \<Rightarrow>
              (let d = repo_getTelemetryByVehicleAndLap (repository st) v l
               in (d, cache_set k d st))))"

definition cache_getTelemetryByTimeRange ::
  "string \<Rightarrow> int option \<Rightarrow> int option \<Rightarrow> TelemetryCache \<Rightarrow> TelemetryFrame list \<times> TelemetryCache" where
  "cache_getTelemetryByTimeRange v startTime endTime st =
     (repo_getTelemetryByTimeRange (repository st) v startTime endTime, st)"

definition cache_getAllVehicleIds :: "TelemetryCache \<Rightarrow> string list \<times> TelemetryCache" where
  "cache_getAllVehicleIds st = (repo_getAllVehicleIds (repository st), st)"

definition cache_getMaxLapNumber :: "string \<Rightarrow> TelemetryCache \<Rightarrow> real \<times> TelemetryCache" where
  "cache_getMaxLapNumber v st = (repo_getMaxLapNumber (repository st) v, st)"

definition cache_saveTelemetry :: "TelemetryFrame list \<Rightarrow> TelemetryCache \<Rightarrow> TelemetryCache" where
  "cache_saveTelemetry frames st =
     st\<lparr>cache := [], head := None, tail := None,
        repository := repo_saveTelemetry (repository st) frames\<rparr>"

definition cache_clear :: "TelemetryCache \<Rightarrow> TelemetryCache" where
  "cache_clear st =
     st\<lparr>cache := [], head := None, tail := None, repository := repo_clear (repository st)\<rparr>"

text \<open>
  The calls of the \<^verbatim>\<open>ITelemetryRepository\<close> interface and what each returns. Every method
  is awaited before the next call starts, so a call sequence is a list.
\<close>

datatype call =
    GetTelemetryByVehicleAndLap string real
  | GetTelemetryByTimeRange string "int option" "int option"
  | GetAllVehicleIds
  | GetMaxLapNumber string
  | SaveTelemetry "TelemetryFrame list"
  | Clear

datatype response =
    Frames "TelemetryFrame list"
  | VehicleIds "string list"
  | MaxLap real
  | Done

fun repo_call :: "call \<Rightarrow> TelemetryRepository \<Rightarrow> response \<times> TelemetryRepository" where
  "repo_call (GetTelemetryByVehicleAndLap v l) repo =
     (Frames (repo_getTelemetryByVehicleAndLap repo v l), repo)"
| "repo_call (GetTelemetryByTimeRange v s e) repo =
     (Frames (repo_getTelemetryByTimeRange repo v s e), repo)"
| "repo_call GetAllVehicleIds repo = (VehicleIds (repo_getAllVehicleIds repo), repo)"
| "repo_call (GetMaxLapNumber v) repo = (MaxLap (repo_getMaxLapNumber repo v), repo)"
| "repo_call (SaveTelemetry frames) repo = (Done, repo_saveTelemetry repo frames)"
| "repo_call Clear repo = (Done, repo_clear repo)"

fun cache_call :: "host \<Rightarrow> call \<Rightarrow> TelemetryCache \<Rightarrow> response \<times> TelemetryCache" where
  "cache_call h (GetTelemetryByVehicleAndLap v l) st =
     (let (d, st') = cache_getTelemetryByVehicleAndLap h v l st in (Frames d, st'))"
| "cache_call h (GetTelemetryByTimeRange v s e) st =
     (let (d, st') = cache_getTelemetryByTimeRange v s e st in (Frames d, st'))"
| "cache_call h GetAllVehicleIds st =
     (let (ids, st') = cache_getAllVehicleIds st in (VehicleIds ids, st'))"
| "cache_call h (GetMaxLapNumber v) st =
     (let (m, st') = cache_getMaxLapNumber v st in (MaxLap m, st'))"
| "cache_call h (SaveTelemetry frames) st = (Done, cache_saveTelemetry frames st)"
| "cache_call h Clear st = (Done, cache_clear st)"

fun repo_run :: "call list \<Rightarrow> TelemetryRepository \<Rightarrow> response list" where
  "repo_run [] repo = []"
| "repo_run (c # cs) repo = (let (r, repo') = repo_call c repo in r # repo_run cs repo')"

fun cache_run :: "host \<Rightarrow> call list \<Rightarrow> TelemetryCache \<Rightarrow> response list" where
  "cache_run h [] st = []"
| "cache_run h (c # cs) st = (let (r, st') = cache_call h c st in r # cache_run h cs st')"

text \<open>The cache after a call sequence, for statements about its internal state.\<close>

fun cache_after :: "host \<Rightarrow> call list \<Rightarrow> TelemetryCache \<Rightarrow> TelemetryCache" where
  "cache_after h [] st = st"
| "cache_after h (c # cs) st = cache_after h cs (snd (cache_call h c st))"

text \<open>
  The keys met from \<open>head\<close> along \<^verbatim>\<open>next\<close> (from \<open>tail\<close> along \<^verbatim>\<open>prev\<close>), walking at most
  \<open>fuel\<close> links: \<open>None\<close> when the walk has not reached the end of the list by then.
\<close>

fun walk_next :: "nat \<Rightarrow> (nat \<Rightarrow> CacheNode) \<Rightarrow> nat option \<Rightarrow> string list option" where
  "walk_next fuel ns None = Some []"
| "walk_next 0 ns (Some a) = None"
| "walk_next (Suc fuel) ns (Some a) =
     map_option ((#) (node_key (ns a))) (walk_next fuel ns (node_next (ns a)))"

fun walk_prev :: "nat \<Rightarrow> (nat \<Rightarrow> CacheNode) \<Rightarrow> nat option \<Rightarrow> string list option" where
  "walk_prev fuel ns None = Some []"
| "walk_prev 0 ns (Some a) = None"
| "walk_prev (Suc fuel) ns (Some a) =
     map_option ((#) (node_key (ns a))) (walk_prev fuel ns (node_prev (ns a)))"

definition cached_keys :: "TelemetryCache \<Rightarrow> string list" where
  "cached_keys st = map fst (cache st)"

text \<open>
  The lap arguments a caller can pass without leaving the domain: a lap is a count, a
  non-negative whole number (\<^verbatim>\<open>GetVehicleTelemetry.execute\<close> rejects a negative lap before
  it calls the repository, and the \<^verbatim>\<open>TelemetryFrame\<close> constructor rejects one in a frame).
\<close>

fun lap_is_count :: "call \<Rightarrow> bool" where
  "lap_is_count (GetTelemetryByVehicleAndLap v l) = (l = of_int \<lfloor>l\<rfloor> \<and> 0 \<le> l)"
| "lap_is_count c = True"

text \<open>Every cached entry holds what the wrapped repository answers now for its key.\<close>

definition coherent :: "host \<Rightarrow> TelemetryCache \<Rightarrow> bool" where
  "coherent h st \<longleftrightarrow>
     (\<forall>k e v l. map_of (cache st) k = Some e \<and> l = of_int \<lfloor>l\<rfloor> \<and> 0 \<le> l \<and> cache_key h v l = k
        \<longrightarrow> entry_data e = repo_getTelemetryByVehicleAndLap (repository st) v l)"

text \<open>Reading a decimal numeral back, to show that printing a count loses nothing.\<close>

definition digit_val :: "char \<Rightarrow> nat" where
  "digit_val c = of_char c - 48"

definition digits_val :: "string \<Rightarrow> nat" where
  "digits_val s = foldl (\<lambda>acc c. 10 * acc + digit_val c) 0 s"

text \<open>
  The recency list as it should be: \<open>linked ns p as\<close> says that the nodes at the addresses
  \<open>as\<close> are chained by \<^verbatim>\<open>next\<close> in this order and by \<^verbatim>\<open>prev\<close> in the opposite order, the first
  having predecessor \<open>p\<close>; \<open>recency_list st as\<close> says that \<open>head\<close> and \<open>tail\<close> are the ends of
  such a chain of distinct allocated nodes and that the map holds the keys of these nodes, each
  once, the oldest first.
\<close>

fun linked :: "(nat \<Rightarrow> CacheNode) \<Rightarrow> nat option \<Rightarrow> nat list \<Rightarrow> bool" where
  "linked ns p [] = True"
| "linked ns p (a # as) =
     (node_prev (ns a) = p \<and> node_next (ns a) = (case as of [] \<Rightarrow> None | b # bs \<Rightarrow> Some b) \<and>
      linked ns (Some a) as)"

definition recency_list :: "TelemetryCache \<Rightarrow> nat list \<Rightarrow> bool" where
  "recency_list st as \<longleftrightarrow>
     distinct as \<and> list_all (\<lambda>a. a < fresh st) as \<and>
     head st = (case as of [] \<Rightarrow> None | a # bs \<Rightarrow> Some a) \<and>
     tail st = (if as = [] then None else Some (last as)) \<and>
     linked (nodes st) None as \<and>
     cached_keys st = rev (map (\<lambda>a. node_key (nodes st a)) as) \<and>
     distinct (cached_keys st)"

text \<open>The last \<open>n\<close> elements of a list.\<close>

definition lastn :: "nat \<Rightarrow> 'a list \<Rightarrow> 'a list" where
  "lastn n xs = drop (length xs - n) xs"

text \<open>A sequence of \<^verbatim>\<open>getTelemetryByVehicleAndLap\<close> calls and the cache keys it asks for.\<close>

fun miss_calls :: "(string \<times> real) list \<Rightarrow> call list" where
  "miss_calls [] = []"
| "miss_calls ((v, l) # vls) = GetTelemetryByVehicleAndLap v l # miss_calls vls"

fun miss_keys :: "host \<Rightarrow> (string \<times> real) list \<Rightarrow> string list" where
  "miss_keys h [] = []"
| "miss_keys h ((v, l) # vls) = cache_key h v l # miss_keys h vls"

section \<open>Row normalizer (TelemetryCSVParser.normalizeRow, isValidRow)\<close>

text \<open>
  A parsed CSV record has a cell for every column of the header. A cell is \<open>Absent\<close> when
  the record has no such key, \<open>Null\<close> when the field was empty, and \<open>Val x\<close> otherwise.
  The columns carry the types of the \<^verbatim>\<open>TelemetryRow\<close> interface: strings for the timestamp,
  the vehicle id and the metric name, a number for the metric value. The lap columns may hold
  any primitive value, since the code tests their type at run time. The columns the parser
  never reads are left out.
\<close>

datatype 'a cell = Absent | Null | Val 'a

datatype js_value = JNum real | JStr string | JBool bool

fun str_truthy :: "string \<Rightarrow> bool" where
  "str_truthy s = (s \<noteq> [])"

fun num_truthy :: "real \<Rightarrow> bool" where
  "num_truthy r = (r \<noteq> 0)"

fun js_truthy :: "js_value \<Rightarrow> bool" where
  "js_truthy (JNum r) = (r \<noteq> 0)"
| "js_truthy (JStr s) = (s \<noteq> [])"
| "js_truthy (JBool b) = b"

fun truthy :: "('a \<Rightarrow> bool) \<Rightarrow> 'a cell \<Rightarrow> bool" where
  "truthy tv (Val x) = tv x"
| "truthy tv c = False"

text \<open>\<^verbatim>\<open>a || b\<close>, \<^verbatim>\<open>a ?? b\<close>, and the spread \<^verbatim>\<open>{f: computed, ...raw}\<close>, where an own key of
  \<^verbatim>\<open>raw\<close> replaces the computed field.\<close>

definition js_or :: "('a \<Rightarrow> bool) \<Rightarrow> 'a cell \<Rightarrow> 'a cell \<Rightarrow> 'a cell" where
  "js_or tv a b = (if truthy tv a then a else b)"

fun nullish :: "'a cell \<Rightarrow> 'a cell \<Rightarrow> 'a cell" where
  "nullish (Val x) b = Val x"
| "nullish a b = b"

fun spread_over :: "'a cell \<Rightarrow> 'a cell \<Rightarrow> 'a cell" where
  "spread_over computed Absent = computed"
| "spread_over computed own = own"

record RawRecord =
  raw_timestamp :: "string cell"
  raw_Time :: "string cell"
  raw_time :: "string cell"
  raw_vehicle_id :: "string cell"
  raw_VehicleId :: "string cell"
  raw_vehicleId :: "string cell"
  raw_lap :: "js_value cell"
  raw_Lap :: "js_value cell"
  raw_lapNumber :: "js_value cell"
  raw_telemetry_name :: "string cell"
  raw_name :: "string cell"
  raw_Parameter :: "string cell"
  raw_signal :: "string cell"
  raw_telemetry_value :: "real cell"
  raw_value :: "real cell"
  raw_Value :: "real cell"
  raw_result :: "real cell"

record NormalizedRow =
  row_timestamp :: "string cell"
  row_vehicle_id :: "string cell"
  row_lap :: "js_value cell"
  row_telemetry_name :: "string cell"
  row_telemetry_value :: "real cell"

definition normalizeRow :: "RawRecord \<Rightarrow> NormalizedRow" where
  "normalizeRow raw =
     \<lparr>row_timestamp =
        spread_over (js_or str_truthy (js_or str_truthy (raw_timestamp raw) (raw_Time raw)) (raw_time raw))
          (raw_timestamp raw),
      row_vehicle_id =
        spread_over
          (js_or str_truthy (js_or str_truthy (raw_vehicle_id raw) (raw_VehicleId raw)) (raw_vehicleId raw))
          (raw_vehicle_id raw),
      row_lap =
        spread_over (js_or js_truthy (js_or js_truthy (raw_lap raw) (raw_Lap raw)) (raw_lapNumber raw))
          (raw_lap raw),
      row_telemetry_name =
        spread_over
          (js_or str_truthy
             (js_or str_truthy (js_or str_truthy (raw_telemetry_name raw) (raw_name raw)) (raw_Parameter raw))
             (raw_signal raw))
          (raw_telemetry_name raw),
      row_telemetry_value =
        spread_over
          (nullish (nullish (nullish (raw_telemetry_value raw) (raw_value raw)) (raw_Value raw))
             (raw_result raw))
          (raw_telemetry_value raw)\<rparr>"

fun is_number :: "js_value cell \<Rightarrow> bool" where
  "is_number (Val (JNum r)) = True"
| "is_number c = False"

definition isValidRow :: "NormalizedRow \<Rightarrow> bool" where
  "isValidRow row \<longleftrightarrow>
     truthy str_truthy (row_telemetry_name row) \<and>
     (truthy num_truthy (row_telemetry_value row) \<or> row_telemetry_value row = Val 0) \<and>
     truthy str_truthy (row_timestamp row) \<and>
     truthy str_truthy (row_vehicle_id row) \<and>
     is_number (row_lap row)"




text \<open>
  A row that passed \<open>isValidRow\<close> is used under the \<^verbatim>\<open>TelemetryRow\<close> interface: every field
  then holds a value of its declared type, and \<open>typed_row\<close> reads the five fields (the
  other equations of the readers are never used on a valid row).
\<close>

record TelemetryRow =
  tr_timestamp :: string
  tr_vehicle_id :: string
  tr_lap :: real
  tr_telemetry_name :: string
  tr_telemetry_value :: real

fun cell_val :: "'a \<Rightarrow> 'a cell \<Rightarrow> 'a" where
  "cell_val d (Val x) = x"
| "cell_val d c = d"

fun lap_val :: "js_value cell \<Rightarrow> real" where
  "lap_val (Val (JNum r)) = r"
| "lap_val c = 0"

definition typed_row :: "NormalizedRow \<Rightarrow> TelemetryRow" where
  "typed_row row =
     \<lparr>tr_timestamp = cell_val [] (row_timestamp row),
      tr_vehicle_id = cell_val [] (row_vehicle_id row),
      tr_lap = lap_val (row_lap row),
      tr_telemetry_name = cell_val [] (row_telemetry_name row),
      tr_telemetry_value = cell_val 0 (row_telemetry_value row)\<rparr>"

section \<open>TelemetryFrame construction and serialisation\<close>

text \<open>
  \<^verbatim>\<open>TelemetryFrameData.timestamp\<close> is a string or a \<^verbatim>\<open>Date\<close>; a \<^verbatim>\<open>Date\<close> is its instant, or
  \<open>None\<close> when it is an invalid date. The constructor throws; the error is the \<open>Inl\<close> value.
  \<^verbatim>\<open>trim\<close> removes white space, here the ASCII white space characters.
\<close>

datatype date_input = DateObject "int option" | DateString string

record TelemetryFrameData =
  fd_timestamp :: date_input
  fd_vehicleId :: string
  fd_lap :: real
  fd_speed :: real
  fd_throttlePos :: real
  fd_brakePos :: real
  fd_gpsLatitude :: real
  fd_gpsLongitude :: real
  fd_steeringAngle :: "real option"
  fd_gear :: "real option"

datatype frame_error =
    InvalidTimestamp
  | VehicleIdRequired
  | NegativeLap
  | NegativeSpeed
  | ThrottleOutOfRange
  | BrakeOutOfRange

fun date_falsy :: "date_input \<Rightarrow> bool" where
  "date_falsy (DateObject d) = False"
| "date_falsy (DateString s) = (s = [])"

fun new_Date :: "host \<Rightarrow> date_input \<Rightarrow> int option" where
  "new_Date h (DateObject d) = d"
| "new_Date h (DateString s) = date_parse h s"

definition is_space :: "char \<Rightarrow> bool" where
  "is_space c \<longleftrightarrow> of_char c \<in> {9, 10, 11, 12, 13, 32 :: nat}"

definition blank :: "string \<Rightarrow> bool" where
  "blank s \<longleftrightarrow> list_all is_space s"

definition new_TelemetryFrame :: "host \<Rightarrow> TelemetryFrameData \<Rightarrow> frame_error + TelemetryFrame" where
  "new_TelemetryFrame h d =
     (case (if date_falsy (fd_timestamp d) then None else new_Date h (fd_timestamp d)) of
        None \<Rightarrow> Inl InvalidTimestamp
      | Some t \<Rightarrow>
          if fd_vehicleId d = [] \<or> blank (fd_vehicleId d) then Inl VehicleIdRequired
          else if fd_lap d < 0 then Inl NegativeLap
          else if fd_speed d < 0 then Inl NegativeSpeed
          else if fd_throttlePos d < 0 \<or> fd_throttlePos d > 100 then Inl ThrottleOutOfRange
          else if fd_brakePos d < 0 \<or> fd_brakePos d > 100 then Inl BrakeOutOfRange
          else Inr \<lparr>timestamp = t, vehicleId = fd_vehicleId d, lap = fd_lap d, speed = fd_speed d,
                    throttlePos = fd_throttlePos d, brakePos = fd_brakePos d,
                    gpsLatitude = fd_gpsLatitude d, gpsLongitude = fd_gpsLongitude d,
                    steeringAngle = fd_steeringAngle d, gear = fd_gear d\<rparr>)"

definition frame_toJSON :: "host \<Rightarrow> TelemetryFrame \<Rightarrow> TelemetryFrameData" where
  "frame_toJSON h f =
     \<lparr>fd_timestamp = DateString (date_to_iso h (timestamp f)), fd_vehicleId = vehicleId f,
      fd_lap = lap f, fd_speed = speed f, fd_throttlePos = throttlePos f,
      fd_brakePos = brakePos f, fd_gpsLatitude = gpsLatitude f,
      fd_gpsLongitude = gpsLongitude f, fd_steeringAngle = steeringAngle f, fd_gear = gear f\<rparr>"

section \<open>Metric pivot engine (TelemetryCSVParser.pivotToFrames)\<close>

text \<open>
  The metric table \<^verbatim>\<open>Map<string, number>\<close> of a group holds numbers, \<^verbatim>\<open>NaN\<close> under
  \<open>_timestamp\<close> when the timestamp does not parse, and the raw vehicle id, a string stored
  \<^verbatim>\<open>as any\<close> under \<open>_vehicle_id\<close>. Both maps are association lists in insertion order.
  \<^verbatim>\<open>toLowerCase\<close> is modelled on the ASCII letters.
\<close>

datatype mval = MNum real | MNaN | MStr string

type_synonym metrics = "(string \<times> mval) list"

definition to_lower_char :: "char \<Rightarrow> char" where
  "to_lower_char c =
     (let n = (of_char c :: nat) in if 65 \<le> n \<and> n \<le> 90 then char_of (n + 32) else c)"

definition toLowerCase :: "string \<Rightarrow> string" where
  "toLowerCase s = map to_lower_char s"

definition getTime_mval :: "host \<Rightarrow> string \<Rightarrow> mval" where
  "getTime_mval h s = (case date_parse h s of None \<Rightarrow> MNaN | Some t \<Rightarrow> MNum (of_int t))"

definition pivot_row :: "host \<Rightarrow> TelemetryRow \<Rightarrow> (string \<times> metrics) list \<Rightarrow> (string \<times> metrics) list" where
  "pivot_row h row groups =
     (let key = tr_timestamp row @ ''_'' @ tr_vehicle_id row @ ''_'' @ number_to_string h (tr_lap row);
          m0 = (case map_of groups key of None \<Rightarrow> [] | Some m \<Rightarrow> m);
          telemetryName = toLowerCase (tr_telemetry_name row);
          m1 = AList.update telemetryName (MNum (tr_telemetry_value row)) m0;
          m2 = (if map_of m1 ''_timestamp'' = None
                then AList.update ''_timestamp'' (getTime_mval h (tr_timestamp row)) m1 else m1);
          m3 = (if map_of m2 ''_vehicle_id'' = None
                then AList.update ''_vehicle_id'' (MStr (tr_vehicle_id row)) m2 else m2);
          m4 = (if map_of m3 ''_lap'' = None
                then AList.update ''_lap'' (MNum (tr_lap row)) m3 else m3)
      in AList.update key m4 groups)"

text \<open>\<^verbatim>\<open>new Date(n)\<close> for a number: the instant is the number cut to a whole count of
  milliseconds, invalid beyond 8.64e15 in magnitude.\<close>

definition time_clip :: "real \<Rightarrow> int option" where
  "time_clip r =
     (if \<bar>r\<bar> \<le> 8640000000000000 then Some (if 0 \<le> r then \<lfloor>r\<rfloor> else \<lceil>r\<rceil>) else None)"

definition date_of_metric :: "host \<Rightarrow> mval option \<Rightarrow> int option" where
  "date_of_metric h v =
     (case v of
        Some (MNum r) \<Rightarrow> time_clip r
      | Some MNaN \<Rightarrow> None
      | Some (MStr s) \<Rightarrow> date_parse h s
      | None \<Rightarrow> None)"

definition string_of_metric :: "host \<Rightarrow> mval option \<Rightarrow> string" where
  "string_of_metric h v =
     (case v of
        Some (MNum r) \<Rightarrow> number_to_string h r
      | Some MNaN \<Rightarrow> ''NaN''
      | Some (MStr s) \<Rightarrow> s
      | None \<Rightarrow> ''undefined'')"

text \<open>A numeric read of the table. Only \<open>_vehicle_id\<close> can hold a string and only
  \<open>_timestamp\<close> can hold \<^verbatim>\<open>NaN\<close>, and neither key is read as a number.\<close>

definition num_at :: "metrics \<Rightarrow> string \<Rightarrow> real option" where
  "num_at m k = (case map_of m k of Some (MNum r) \<Rightarrow> Some r | _ \<Rightarrow> None)"

text \<open>\<^verbatim>\<open>a || b\<close> where \<^verbatim>\<open>a\<close> is a table read: a missing entry and zero are falsy.\<close>

definition or_else :: "real option \<Rightarrow> real \<Rightarrow> real" where
  "or_else a b = (case a of Some r \<Rightarrow> (if r \<noteq> 0 then r else b) | None \<Rightarrow> b)"

definition normalizeVehicleId :: "string \<Rightarrow> string" where
  "normalizeVehicleId v = (if take 5 v = ''GR86-'' then drop 5 v else v)"

definition clamp :: "real \<Rightarrow> real \<Rightarrow> real \<Rightarrow> real" where
  "clamp v lo hi = min (max v lo) hi"

definition frame_data :: "host \<Rightarrow> metrics \<Rightarrow> real \<Rightarrow> TelemetryFrameData" where
  "frame_data h m l =
     \<lparr>fd_timestamp = DateObject (date_of_metric h (map_of m ''_timestamp'')),
      fd_vehicleId = normalizeVehicleId (string_of_metric h (map_of m ''_vehicle_id'')),
      fd_lap = l,
      fd_speed = or_else (num_at m ''speed'') (or_else (num_at m ''speed_can'') 0),
      fd_throttlePos =
        clamp (or_else (num_at m ''ath'')
                 (or_else (num_at m ''throttle_pos'') (or_else (num_at m ''throttle'') 0))) 0 100,
      fd_brakePos =
        clamp (max (max (or_else (num_at m ''pbrake_f'') 0) (or_else (num_at m ''pbrake_r'') 0))
                 (or_else (num_at m ''brake_pos'') 0)) 0 100,
      fd_gpsLatitude =
        or_else (num_at m ''gps_lat'')
          (or_else (num_at m ''gps_latitude'') (or_else (num_at m ''latitude'') 0)),
      fd_gpsLongitude =
        or_else (num_at m ''gps_lon'')
          (or_else (num_at m ''gps_longitude'') (or_else (num_at m ''longitude'') 0)),
      fd_steeringAngle = None,
      fd_gear = (case num_at m ''gear'' of Some g \<Rightarrow> (if g \<noteq> 0 then Some g else None) | None \<Rightarrow> None)\<rparr>"

text \<open>The frame of one group, \<open>None\<close> when the constructor throws and the group is dropped.
  The table of a group always has a number under \<open>_lap\<close> (lemma \<open>pivot_groups_have_lap\<close>).\<close>

definition group_frame :: "host \<Rightarrow> metrics \<Rightarrow> TelemetryFrame option" where
  "group_frame h m =
     (case num_at m ''_lap'' of
        None \<Rightarrow> None
      | Some l \<Rightarrow> (case new_TelemetryFrame h (frame_data h m l) of Inl e \<Rightarrow> None | Inr f \<Rightarrow> Some f))"

definition pivot_groups :: "host \<Rightarrow> TelemetryRow list \<Rightarrow> (string \<times> metrics) list" where
  "pivot_groups h rows = fold (pivot_row h) rows []"

definition pivotToFrames :: "host \<Rightarrow> TelemetryRow list \<Rightarrow> TelemetryFrame list" where
  "pivotToFrames h rows =
     sort_key timestamp (List.map_filter (\<lambda>(key, m). group_frame h m) (pivot_groups h rows))"

section \<open>Streaming ingestion controller (TelemetryCSVParser.parseFile)\<close>

text \<open>
  The row source delivers the file as a list of chunks and then completes. The state of
  one call is the accumulated rows, the count of scanned rows, the \<^verbatim>\<open>aborted\<close> flag and the
  value the promise was resolved with, if any. Logging and the progress callback do not
  touch this state and are left out.
\<close>

record Filter =
  filter_vehicleId :: "string option"
  filter_lap :: "real option"

record Options =
  opt_maxRows :: "int option"
  opt_skipRows :: "int option"
  opt_filter :: "Filter option"

definition maxRows :: "Options \<Rightarrow> int" where
  "maxRows opts = (case opt_maxRows opts of None \<Rightarrow> 100000 | Some m \<Rightarrow> m)"

definition skipRows :: "Options \<Rightarrow> int" where
  "skipRows opts = (case opt_skipRows opts of None \<Rightarrow> 0 | Some k \<Rightarrow> k)"

record Ingestion =
  rawRows :: "TelemetryRow list"
  rowCount :: int
  aborted :: bool
  resolved :: "TelemetryFrame list option"

definition wrong_vehicle :: "Filter \<Rightarrow> TelemetryRow \<Rightarrow> bool" where
  "wrong_vehicle f row =
     (case filter_vehicleId f of
        None \<Rightarrow> False
      | Some v \<Rightarrow> v \<noteq> [] \<and> normalizeVehicleId (tr_vehicle_id row) \<noteq> v)"

definition wrong_lap :: "Filter \<Rightarrow> TelemetryRow \<Rightarrow> bool" where
  "wrong_lap f row =
     (case filter_lap f of
        None \<Rightarrow> False
      | Some l \<Rightarrow> l \<noteq> 0 \<and> tr_lap row \<noteq> l)"

definition filtered_out :: "Filter option \<Rightarrow> TelemetryRow \<Rightarrow> bool" where
  "filtered_out flt row =
     (case flt of None \<Rightarrow> False | Some f \<Rightarrow> wrong_vehicle f row \<or> wrong_lap f row)"

text \<open>The body of the \<^verbatim>\<open>for\<close> loop over the rows of a chunk: \<^verbatim>\<open>continue\<close> goes on with the
  rest, \<^verbatim>\<open>return\<close> leaves the loop.\<close>

fun process_rows :: "host \<Rightarrow> Options \<Rightarrow> RawRecord list \<Rightarrow> Ingestion \<Rightarrow> Ingestion" where
  "process_rows h opts [] st = st"
| "process_rows h opts (raw # rest) st =
     (if rowCount st \<le> skipRows opts then process_rows h opts rest st
      else
        (let row = normalizeRow raw
         in if isValidRow row then
              (if filtered_out (opt_filter opts) (typed_row row) then process_rows h opts rest st
               else
                 (let st' = st\<lparr>rawRows := rawRows st @ [typed_row row]\<rparr>
                  in if int (length (rawRows st')) \<ge> maxRows opts
                     then st'\<lparr>aborted := True, resolved := Some (pivotToFrames h (rawRows st'))\<rparr>
                     else process_rows h opts rest st'))
            else process_rows h opts rest st))"

definition chunk :: "host \<Rightarrow> Options \<Rightarrow> RawRecord list \<Rightarrow> Ingestion \<Rightarrow> Ingestion" where
  "chunk h opts rows st =
     (if aborted st then st
      else process_rows h opts rows (st\<lparr>rowCount := rowCount st + int (length rows)\<rparr>))"

definition complete :: "host \<Rightarrow> Ingestion \<Rightarrow> Ingestion" where
  "complete h st =
     (if \<not> aborted st then st\<lparr>resolved := Some (pivotToFrames h (rawRows st))\<rparr> else st)"

definition start :: Ingestion where
  "start = \<lparr>rawRows = [], rowCount = 0, aborted = False, resolved = None\<rparr>"

definition chunks_done :: "host \<Rightarrow> Options \<Rightarrow> RawRecord list list \<Rightarrow> Ingestion" where
  "chunks_done h opts cs = fold (chunk h opts) cs start"

definition parseFile :: "host \<Rightarrow> Options \<Rightarrow> RawRecord list list \<Rightarrow> TelemetryFrame list option" where
  "parseFile h opts cs = resolved (complete h (chunks_done h opts cs))"

text \<open>
  The rows of a chunk sequence that pass validation and the filter, in order, when \<open>n\<close>
  rows were scanned before: a chunk is skipped whole while the count of scanned rows,
  its own rows included, has not passed \<^verbatim>\<open>skipRows\<close>.
\<close>

definition accepted_rows :: "Options \<Rightarrow> RawRecord list \<Rightarrow> TelemetryRow list" where
  "accepted_rows opts rows =
     map typed_row
       (filter (\<lambda>row. isValidRow row \<and> \<not> filtered_out (opt_filter opts) (typed_row row))
          (map normalizeRow rows))"

fun matched :: "Options \<Rightarrow> int \<Rightarrow> RawRecord list list \<Rightarrow> TelemetryRow list" where
  "matched opts n [] = []"
| "matched opts n (c # cs) =
     (if n + int (length c) \<le> skipRows opts then [] else accepted_rows opts c)
     @ matched opts (n + int (length c)) cs"

text \<open>What holds of the state between two chunks under a cap of at least one row.\<close>

definition cap_inv :: "host \<Rightarrow> Options \<Rightarrow> Ingestion \<Rightarrow> bool" where
  "cap_inv h opts st \<longleftrightarrow>
     (aborted st \<longleftrightarrow> maxRows opts \<le> int (length (rawRows st))) \<and>
     int (length (rawRows st)) \<le> maxRows opts \<and>
     (aborted st \<longrightarrow> resolved st = Some (pivotToFrames h (rawRows st)))"




definition has_lap :: "metrics \<Rightarrow> bool" where
  "has_lap m \<longleftrightarrow> (\<exists>r. map_of m ''_lap'' = Some (MNum r))"

section \<open>Vehicle and Lap (domain/entities/Vehicle.ts, Lap.ts)\<close>

text \<open>
  A car number is a number or \<^verbatim>\<open>NaN\<close> (\<open>None\<close>), which \<^verbatim>\<open>parseInt\<close> yields on a string with
  no leading digits; \<^verbatim>\<open>NaN < 0\<close> is false. The sector times, a \<^verbatim>\<open>Record<string, number>\<close> in
  the data and a \<^verbatim>\<open>Map<string, number>\<close> in the entity, are a map; the order of the entries
  is not modelled.
\<close>

record VehicleData =
  vd_chassis :: string
  vd_carNumber :: "real option"

record Vehicle =
  chassis :: string
  carNumber :: "real option"
  vehicle_ident :: string

datatype vehicle_error = ChassisRequired | NegativeCarNumber

definition car_number_to_string :: "host \<Rightarrow> real option \<Rightarrow> string" where
  "car_number_to_string h n = (case n of None \<Rightarrow> ''NaN'' | Some r \<Rightarrow> number_to_string h r)"

definition new_Vehicle :: "host \<Rightarrow> VehicleData \<Rightarrow> vehicle_error + Vehicle" where
  "new_Vehicle h d =
     (if vd_chassis d = [] \<or> blank (vd_chassis d) then Inl ChassisRequired
      else if (case vd_carNumber d of None \<Rightarrow> False | Some n \<Rightarrow> n < 0) then Inl NegativeCarNumber
      else Inr \<lparr>chassis = vd_chassis d, carNumber = vd_carNumber d,
                vehicle_ident = vd_chassis d @ ''-'' @ car_number_to_string h (vd_carNumber d)\<rparr>)"

definition vehicle_toJSON :: "Vehicle \<Rightarrow> VehicleData" where
  "vehicle_toJSON v = \<lparr>vd_chassis = chassis v, vd_carNumber = carNumber v\<rparr>"

record LapData =
  ld_lapNumber :: real
  ld_vehicle :: Vehicle
  ld_startTime :: date_input
  ld_endTime :: date_input
  ld_sectorTimes :: "(string \<rightharpoonup> real) option"

record Lap =
  lapNumber :: real
  vehicle :: Vehicle
  startTime :: int
  endTime :: int
  sectorTimes :: "string \<rightharpoonup> real"

datatype lap_error = NegativeLapNumber | InvalidStartTime | InvalidEndTime | EndNotAfterStart

text \<open>The constructor's test \<^verbatim>\<open>!data.vehicle\<close> is false of every \<^verbatim>\<open>Vehicle\<close> object and has no
  branch here.\<close>

definition new_Lap :: "host \<Rightarrow> LapData \<Rightarrow> lap_error + Lap" where
  "new_Lap h d =
     (if ld_lapNumber d < 0 then Inl NegativeLapNumber
      else
        (case (if date_falsy (ld_startTime d) then None else new_Date h (ld_startTime d)) of
           None \<Rightarrow> Inl InvalidStartTime
         | Some s \<Rightarrow>
             (case (if date_falsy (ld_endTime d) then None else new_Date h (ld_endTime d)) of
                None \<Rightarrow> Inl InvalidEndTime
              | Some e \<Rightarrow>
                  if e \<le> s then Inl EndNotAfterStart
                  else Inr \<lparr>lapNumber = ld_lapNumber d, vehicle = ld_vehicle d, startTime = s,
                            endTime = e,
                            sectorTimes = (case ld_sectorTimes d of None \<Rightarrow> Map.empty | Some m \<Rightarrow> m)\<rparr>)))"

definition durationMs :: "Lap \<Rightarrow> int" where
  "durationMs l = endTime l - startTime l"

record LapDataJSON =
  lj_lapNumber :: real
  lj_vehicle :: VehicleData
  lj_startTime :: string
  lj_endTime :: string
  lj_durationMs :: int
  lj_sectorTimes :: "string \<rightharpoonup> real"

definition lap_toJSON :: "host \<Rightarrow> Lap \<Rightarrow> LapDataJSON" where
  "lap_toJSON h l =
     \<lparr>lj_lapNumber = lapNumber l, lj_vehicle = vehicle_toJSON (vehicle l),
      lj_startTime = date_to_iso h (startTime l), lj_endTime = date_to_iso h (endTime l),
      lj_durationMs = durationMs l, lj_sectorTimes = sectorTimes l\<rparr>"

text \<open>
  Rebuilding a lap from its plain form, as the types of the two constructors prescribe:
  \<^verbatim>\<open>new Lap({...json, vehicle: new Vehicle(json.vehicle)})\<close>. The stored duration is not an
  input of the constructor.
\<close>

datatype rebuild_error = VehicleError vehicle_error | LapError lap_error

definition lap_rebuild :: "host \<Rightarrow> LapDataJSON \<Rightarrow> rebuild_error + Lap" where
  "lap_rebuild h j =
     (case new_Vehicle h (lj_vehicle j) of
        Inl e \<Rightarrow> Inl (VehicleError e)
      | Inr v \<Rightarrow>
          (case new_Lap h \<lparr>ld_lapNumber = lj_lapNumber j, ld_vehicle = v,
                          ld_startTime = DateString (lj_startTime j),
                          ld_endTime = DateString (lj_endTime j),
                          ld_sectorTimes = Some (lj_sectorTimes j)\<rparr> of
             Inl e \<Rightarrow> Inl (LapError e)
           | Inr l \<Rightarrow> Inr l))"

text \<open>The guarantee of the runtime that the round trip uses: the ISO string of an instant is
  not empty and parses back to the instant.\<close>

definition iso_round_trip :: "host \<Rightarrow> int \<Rightarrow> bool" where
  "iso_round_trip h t \<longleftrightarrow> date_to_iso h t \<noteq> [] \<and> date_parse h (date_to_iso h t) = Some t"

section \<open>Lap boundary reconstructor (LapTimeCSVParser.processRows, convertToLap)\<close>
























section \<open>Sample data for the examples\<close>

text \<open>
  A runtime that knows three instants of the afternoon of 26 April 2025 and prints a
  non-integral number as the empty string (no example prints one).
\<close>

definition sample_host :: host where
  "sample_host =
     \<lparr>date_parse = (\<lambda>s.
        if s = ''2025-04-26T18:00:00.000Z'' then Some 1745690400000
        else if s = ''2025-04-26T18:02:00.000Z'' then Some 1745690520000
        else if s = ''2025-04-26T18:03:30.000Z'' then Some 1745690610000
        else None),
      date_to_iso = (\<lambda>t.
        if t = 1745690400000 then ''2025-04-26T18:00:00.000Z''
        else if t = 1745690520000 then ''2025-04-26T18:02:00.000Z''
        else if t = 1745690610000 then ''2025-04-26T18:03:30.000Z''
        else []),
      frac_to_string = (\<lambda>r. [])\<rparr>"

definition sample_frame :: "string \<Rightarrow> real \<Rightarrow> TelemetryFrame" where
  "sample_frame v l =
     \<lparr>timestamp = 1745690400000, vehicleId = v, lap = l, speed = 120.5, throttlePos = 85.2,
      brakePos = 0, gpsLatitude = 30.13, gpsLongitude = -97.64, steeringAngle = None,
      gear = Some 4\<rparr>"

text \<open>A record of a file whose header has the five canonical columns only.\<close>

definition sample_record :: "string \<Rightarrow> string \<Rightarrow> real \<Rightarrow> string \<Rightarrow> real \<Rightarrow> RawRecord" where
  "sample_record ts v l n x =
     \<lparr>raw_timestamp = Val ts, raw_Time = Absent, raw_time = Absent,
      raw_vehicle_id = Val v, raw_VehicleId = Absent, raw_vehicleId = Absent,
      raw_lap = Val (JNum l), raw_Lap = Absent, raw_lapNumber = Absent,
      raw_telemetry_name = Val n, raw_name = Absent, raw_Parameter = Absent, raw_signal = Absent,
      raw_telemetry_value = Val x, raw_value = Absent, raw_Value = Absent, raw_result = Absent\<rparr>"

definition sample_options :: "int \<Rightarrow> string \<Rightarrow> real \<Rightarrow> Options" where
  "sample_options m v l =
     \<lparr>opt_maxRows = Some m, opt_skipRows = None,
      opt_filter = Some \<lparr>filter_vehicleId = Some v, filter_lap = Some l\<rparr>\<rparr>"

definition sample_chunks :: "RawRecord list list" where
  "sample_chunks =
     [[sample_record ''2025-04-26T18:00:00.000Z'' ''GR86-V1'' 3 ''Speed'' 120.5,
       sample_record ''2025-04-26T18:00:00.000Z'' ''V2'' 3 ''Speed'' 99,
       sample_record ''2025-04-26T18:00:00.000Z'' ''GR86-V1'' 3 ''aTH'' 185.2],
      [sample_record ''2025-04-26T18:00:00.000Z'' ''GR86-V1'' 3 ''pBrake_F'' 0,
       sample_record ''2025-04-26T18:02:00.000Z'' ''GR86-V1'' 4 ''Speed'' 77]]"


definition sample_pivot_frame :: TelemetryFrame where
  "sample_pivot_frame =
     \<lparr>timestamp = 1745690400000, vehicleId = ''V1'', lap = 3, speed = 120.5, throttlePos = 100,
      brakePos = 0, gpsLatitude = 0, gpsLongitude = 0, steeringAngle = None, gear = None\<rparr>"



definition sample_vehicle_data :: VehicleData where
  "sample_vehicle_data = \<lparr>vd_chassis = ''004'', vd_carNumber = Some 78\<rparr>"

definition sample_vehicle :: Vehicle where
  "sample_vehicle = \<lparr>chassis = ''004'', carNumber = Some 78, vehicle_ident = ''004-78''\<rparr>"

definition sample_lap_data :: LapData where
  "sample_lap_data =
     \<lparr>ld_lapNumber = 2, ld_vehicle = sample_vehicle,
      ld_startTime = DateString ''2025-04-26T18:00:00.000Z'',
      ld_endTime = DateObject (Some 1745690520000),
      ld_sectorTimes = Some [''sector_1'' \<mapsto> 41250]\<rparr>"

definition sample_lap :: Lap where
  "sample_lap =
     \<lparr>lapNumber = 2, vehicle = sample_vehicle, startTime = 1745690400000,
      endTime = 1745690520000, sectorTimes = [''sector_1'' \<mapsto> 41250]\<rparr>"



chapter \<open>Properties\<close>

section \<open>Evaluation of cache call sequences\<close>

lemma nat_to_string_digit: "n < 10 \<Longrightarrow> nat_to_string n = [digit_char n]"
  by (subst nat_to_string.simps) simp

text \<open>
  C1 (least-recently-used eviction, refresh on a hit). On a cache of capacity 2 the calls
  get(B,1), get(A,1), get(A,1), get(C,1), get(D,1) leave the keys \<open>A-1\<close> and \<open>D-1\<close>
  cached; the sixth call, get(D,1), is a hit on \<open>D-1\<close> and leaves the same keys. The
  miss on (E,1) that follows evicts \<open>D-1\<close>, the key that was just refreshed, and keeps
  \<open>A-1\<close>, which was last used at the third call. The hit on \<open>A-1\<close> while it was the
  head of the list is what breaks the list: \<open>moveToFront\<close> does not advance \<open>head\<close> as
  \<open>remove\<close> does. The half of the claim on calls without a hit holds (lemma
  \<open>misses_keep_most_recent\<close>).
\<close>

theorem lru_refreshed_key_evicted:
  "cached_keys (cache_after sample_host
      [GetTelemetryByVehicleAndLap ''B'' 1, GetTelemetryByVehicleAndLap ''A'' 1,
       GetTelemetryByVehicleAndLap ''A'' 1, GetTelemetryByVehicleAndLap ''C'' 1,
       GetTelemetryByVehicleAndLap ''D'' 1]
      (new_cache [] 2)) = [''A-1'', ''D-1''] \<and>
   cached_keys (cache_after sample_host
      [GetTelemetryByVehicleAndLap ''B'' 1, GetTelemetryByVehicleAndLap ''A'' 1,
       GetTelemetryByVehicleAndLap ''A'' 1, GetTelemetryByVehicleAndLap ''C'' 1,
       GetTelemetryByVehicleAndLap ''D'' 1, GetTelemetryByVehicleAndLap ''D'' 1]
      (new_cache [] 2)) = [''A-1'', ''D-1''] \<and>
   cached_keys (cache_after sample_host
      [GetTelemetryByVehicleAndLap ''B'' 1, GetTelemetryByVehicleAndLap ''A'' 1,
       GetTelemetryByVehicleAndLap ''A'' 1, GetTelemetryByVehicleAndLap ''C'' 1,
       GetTelemetryByVehicleAndLap ''D'' 1, GetTelemetryByVehicleAndLap ''D'' 1,
       GetTelemetryByVehicleAndLap ''E'' 1]
      (new_cache [] 2)) = [''A-1'', ''E-1'']"
  by code_simp

text \<open>
  C2 (the map and the recency list agree, the list is acyclic). After get(A,1) twice on
  a cache of capacity 100 the only node is its own successor and its own predecessor, so
  the walk from \<open>head\<close> never ends. After get(B,1), get(A,1), get(A,1), get(C,1) on a cache
  of capacity 2 the map holds \<open>A-1\<close> and \<open>C-1\<close> while the list from \<open>head\<close>, and the list
  from \<open>tail\<close>, hold \<open>C-1\<close> alone.
\<close>

theorem hit_on_head_breaks_list:
  "(let st = cache_after sample_host
        [GetTelemetryByVehicleAndLap ''A'' 1, GetTelemetryByVehicleAndLap ''A'' 1]
        (new_cache [] 100)
    in cached_keys st = [''A-1''] \<and> head st = Some 0 \<and> tail st = Some 0 \<and>
       node_next (nodes st 0) = Some 0 \<and> node_prev (nodes st 0) = Some 0) \<and>
   (let st = cache_after sample_host
        [GetTelemetryByVehicleAndLap ''B'' 1, GetTelemetryByVehicleAndLap ''A'' 1,
         GetTelemetryByVehicleAndLap ''A'' 1, GetTelemetryByVehicleAndLap ''C'' 1]
        (new_cache [] 2)
    in cached_keys st = [''A-1'', ''C-1''] \<and>
       walk_next 2 (nodes st) (head st) = Some [''C-1''] \<and>
       walk_prev 2 (nodes st) (tail st) = Some [''C-1''])"
  by code_simp

section \<open>Eviction without hits\<close>

lemma linked_frame: "x \<notin> set as \<Longrightarrow> linked (ns(x := v)) p as = linked ns p as"
  by (induction as arbitrary: p) auto

lemma linked_keys_frame:
  "x \<notin> set as \<Longrightarrow> map (\<lambda>a. node_key ((ns(x := v)) a)) as = map (\<lambda>a. node_key (ns a)) as"
  by (induction as) auto

lemma linked_set_prev_head:
  assumes "linked ns p (a # as)" "a \<notin> set as"
  shows "linked (ns(a := (ns a)\<lparr>node_prev := q\<rparr>)) q (a # as)"
proof -
  have "linked (ns(a := (ns a)\<lparr>node_prev := q\<rparr>)) (Some a) as"
    using assms by (simp add: linked_frame)
  with assms(1) show ?thesis by simp
qed

lemma linked_drop_last:
  assumes "linked ns p (xs @ [t])" "xs \<noteq> []" "distinct (xs @ [t])"
  shows "node_prev (ns t) = Some (last xs) \<and>
         linked (ns(last xs := (ns (last xs))\<lparr>node_next := None\<rparr>)) p xs"
  using assms
proof (induction xs arbitrary: p)
  case Nil
  then show ?case by simp
next
  case (Cons a xs)
  show ?case
  proof (cases "xs = []")
    case True
    with Cons.prems show ?thesis by simp
  next
    case False
    from Cons.prems have l: "linked ns (Some a) (xs @ [t])" and d: "distinct (xs @ [t])"
      by simp_all
    from Cons.IH[OF l False d] have ih: "node_prev (ns t) = Some (last xs)"
      "linked (ns(last xs := (ns (last xs))\<lparr>node_next := None\<rparr>)) (Some a) xs"
      by blast+
    from Cons.prems False have ne: "a \<noteq> last xs"
      by (metis distinct.simps(2) append_Cons last_in_set set_append UnCI)
    from Cons.prems(1) have pa: "node_prev (ns a) = p"
      and na: "node_next (ns a) = (case xs @ [t] of [] \<Rightarrow> None | b # bs \<Rightarrow> Some b)"
      by simp_all
    have na': "node_next (ns a) = (case xs of [] \<Rightarrow> None | b # bs \<Rightarrow> Some b)"
      using na False by (cases xs) simp_all
    let ?ns = "ns(last xs := (ns (last xs))\<lparr>node_next := None\<rparr>)"
    have same: "?ns a = ns a" using ne by simp
    have "linked ?ns p (a # xs)"
      unfolding linked.simps same using pa na' ih(2) by blast
    moreover have "last (a # xs) = last xs" using False by simp
    ultimately show ?thesis using ih(1) by (simp only:) 
  qed
qed


lemma delete_head_key:
  assumes "map fst al = k # ks" "k \<notin> set ks"
  shows "map fst (AList.delete k al) = ks"
  using assms by (simp add: delete_keys)

lemma evict_recency:
  assumes r: "recency_list st as" and ne: "as \<noteq> []"
  shows "recency_list (removeTail (st\<lparr>cache := AList.delete (node_key (nodes st (last as))) (cache st)\<rparr>))
           (butlast as) \<and>
         cached_keys (removeTail (st\<lparr>cache := AList.delete (node_key (nodes st (last as))) (cache st)\<rparr>)) =
           tl (cached_keys st) \<and>
         fresh (removeTail (st\<lparr>cache := AList.delete (node_key (nodes st (last as))) (cache st)\<rparr>)) =
           fresh st"
proof -
  let ?t = "last as"
  let ?xs = "butlast as"
  let ?st0 = "st\<lparr>cache := AList.delete (node_key (nodes st ?t)) (cache st)\<rparr>"
  from ne have as: "as = ?xs @ [?t]" by simp
  from r have d: "distinct as" and fr: "list_all (\<lambda>a. a < fresh st) as"
    and hd: "head st = (case as of [] \<Rightarrow> None | a # bs \<Rightarrow> Some a)"
    and tl0: "tail st = (if as = [] then None else Some ?t)" and li: "linked (nodes st) None as"
    and ks: "cached_keys st = rev (map (\<lambda>a. node_key (nodes st a)) as)"
    and dk: "distinct (cached_keys st)"
    unfolding recency_list_def by blast+
  from tl0 ne have tl: "tail st = Some ?t" by simp
  have ks': "cached_keys st = node_key (nodes st ?t) # rev (map (\<lambda>a. node_key (nodes st a)) ?xs)"
    by (subst ks, subst as) simp
  with dk have notin: "node_key (nodes st ?t) \<notin> set (rev (map (\<lambda>a. node_key (nodes st a)) ?xs))"
    and dk': "distinct (rev (map (\<lambda>a. node_key (nodes st a)) ?xs))"
    by simp_all
  have c0: "map fst (cache ?st0) = rev (map (\<lambda>a. node_key (nodes st a)) ?xs)"
    using delete_head_key[OF ks'[unfolded cached_keys_def] notin] by simp
  from d as have dx: "distinct ?xs" by (metis distinct_append)
  from fr have frx: "list_all (\<lambda>a. a < fresh st) ?xs"
    by (auto simp: list_all_iff dest: in_set_butlastD)
  show ?thesis
  proof (cases "?xs = []")
    case True
    with as have one: "as = [?t]" by simp
    with li have "linked (nodes st) None [?t]" by simp
    then have "node_prev (nodes st ?t) = None" by simp
    with tl have rt: "removeTail ?st0 = ?st0\<lparr>head := None, tail := None\<rparr>"
      by (simp add: removeTail_def)
    show ?thesis
      unfolding rt using True c0 ks' by (simp add: recency_list_def cached_keys_def)
  next
    case False
    let ?p = "last ?xs"
    from li as have li': "linked (nodes st) None (?xs @ [?t])" by simp
    from d as have d': "distinct (?xs @ [?t])" by simp
    from linked_drop_last[OF li' False d']
    have pv: "node_prev (nodes st ?t) = Some ?p"
      and lx: "linked ((nodes st)(?p := (nodes st ?p)\<lparr>node_next := None\<rparr>)) None ?xs"
      by blast+
    from tl pv have rt: "removeTail ?st0 = (set_next ?p None ?st0)\<lparr>tail := Some ?p\<rparr>"
      by (simp add: removeTail_def)
    have nodes': "nodes (removeTail ?st0) = (nodes st)(?p := (nodes st ?p)\<lparr>node_next := None\<rparr>)"
      unfolding rt by (simp add: set_next_def)
    have keys': "map (\<lambda>a. node_key (nodes (removeTail ?st0) a)) ?xs =
                 map (\<lambda>a. node_key (nodes st a)) ?xs"
      unfolding nodes' by simp
    have hd': "head (removeTail ?st0) = (case ?xs of [] \<Rightarrow> None | a # bs \<Rightarrow> Some a)"
      unfolding rt using hd False as by (cases ?xs) (simp_all add: set_next_def, metis append_Cons list.simps(5))
    have "recency_list (removeTail ?st0) ?xs"
      unfolding recency_list_def
    proof (intro conjI)
      show "distinct ?xs" by (rule dx)
      show "list_all (\<lambda>a. a < fresh (removeTail ?st0)) ?xs"
        unfolding rt using frx by (simp add: set_next_def)
      show "head (removeTail ?st0) = (case ?xs of [] \<Rightarrow> None | a # bs \<Rightarrow> Some a)" by (rule hd')
      show "tail (removeTail ?st0) = (if ?xs = [] then None else Some (last ?xs))"
        unfolding rt using False by simp
      show "linked (nodes (removeTail ?st0)) None ?xs"
        unfolding nodes' by (rule lx)
      show "cached_keys (removeTail ?st0) = rev (map (\<lambda>a. node_key (nodes (removeTail ?st0) a)) ?xs)"
        unfolding keys' using c0 by (simp add: rt cached_keys_def set_next_def)
      then show "distinct (cached_keys (removeTail ?st0))"
        using dk' keys' by simp
    qed
    moreover have "cached_keys (removeTail ?st0) = tl (cached_keys st)"
      using c0 ks' by (simp add: rt cached_keys_def set_next_def)
    moreover have "fresh (removeTail ?st0) = fresh st"
      by (simp add: rt set_next_def)
    ultimately show ?thesis by simp
  qed
qed


lemma add_front_recency:
  assumes r: "recency_list st as" and k: "k \<notin> set (cached_keys st)"
  shows "recency_list
           (addToFront (fresh st)
              (st\<lparr>nodes := (nodes st)(fresh st := \<lparr>node_key = k, node_prev = None, node_next = None\<rparr>),
                  fresh := Suc (fresh st),
                  cache := AList.update k e (cache st)\<rparr>))
           (fresh st # as) \<and>
         cached_keys
           (addToFront (fresh st)
              (st\<lparr>nodes := (nodes st)(fresh st := \<lparr>node_key = k, node_prev = None, node_next = None\<rparr>),
                  fresh := Suc (fresh st),
                  cache := AList.update k e (cache st)\<rparr>)) = cached_keys st @ [k]"
proof -
  let ?n = "fresh st"
  let ?ns1 = "(nodes st)(?n := \<lparr>node_key = k, node_prev = None, node_next = None\<rparr>)"
  let ?st1 = "st\<lparr>nodes := ?ns1, fresh := Suc ?n, cache := AList.update k e (cache st)\<rparr>"
  from r have d: "distinct as" and fr: "list_all (\<lambda>a. a < fresh st) as"
    and hd: "head st = (case as of [] \<Rightarrow> None | a # bs \<Rightarrow> Some a)"
    and tl: "tail st = (if as = [] then None else Some (last as))"
    and li: "linked (nodes st) None as"
    and ks: "cached_keys st = rev (map (\<lambda>a. node_key (nodes st a)) as)"
    and dk: "distinct (cached_keys st)"
    unfolding recency_list_def by blast+
  from fr have nin: "?n \<notin> set as" by (auto simp: list_all_iff)
  have keys1: "cached_keys ?st1 = cached_keys st @ [k]"
    using k by (simp add: cached_keys_def update_keys)
  have li1: "linked ?ns1 None as" using li nin by (simp add: linked_frame)
  show ?thesis
  proof (cases as)
    case Nil
    with hd tl have af: "addToFront ?n ?st1 =
        ?st1\<lparr>nodes := ?ns1, head := Some ?n, tail := Some ?n\<rparr>"
      by (simp add: addToFront_def Let_def set_next_def set_prev_def)
    show ?thesis
      unfolding af using Nil ks keys1 by (simp add: recency_list_def cached_keys_def)
  next
    case (Cons old rest)
    with nin have neq: "old \<noteq> ?n" by auto
    let ?ns2 = "?ns1(?n := \<lparr>node_key = k, node_prev = None, node_next = Some old\<rparr>)"
    let ?ns3 = "?ns2(old := (?ns2 old)\<lparr>node_prev := Some ?n\<rparr>)"
    from Cons hd tl neq have af: "addToFront ?n ?st1 = ?st1\<lparr>nodes := ?ns3, head := Some ?n\<rparr>"
      by (simp add: addToFront_def Let_def set_next_def set_prev_def)
    from Cons d have oin: "old \<notin> set rest" by simp
    have "linked ?ns2 None (old # rest)"
      using li nin Cons by (simp add: linked_frame del: linked.simps)
    from linked_set_prev_head[OF this oin, of "Some ?n"]
    have l3: "linked ?ns3 (Some ?n) (old # rest)" .
    have n3: "?ns3 ?n = \<lparr>node_key = k, node_prev = None, node_next = Some old\<rparr>"
      using neq by simp
    have li3: "linked ?ns3 None (?n # as)"
      unfolding Cons using l3 n3 by (simp del: fun_upd_apply)
    have key3: "node_key (?ns3 a) = node_key (nodes st a)" if "a \<in> set as" for a
      using that nin by auto
    then have keys3: "map (\<lambda>a. node_key (?ns3 a)) as = map (\<lambda>a. node_key (nodes st a)) as"
      by (intro map_cong) simp_all
    have "recency_list (addToFront ?n ?st1) (?n # as)"
      unfolding recency_list_def
    proof (intro conjI)
      show "distinct (?n # as)" using d nin by simp
      show "list_all (\<lambda>a. a < fresh (addToFront ?n ?st1)) (?n # as)"
        unfolding af using fr by (auto simp: list_all_iff)
      show "head (addToFront ?n ?st1) = (case ?n # as of [] \<Rightarrow> None | a # bs \<Rightarrow> Some a)"
        unfolding af by simp
      show "tail (addToFront ?n ?st1) = (if ?n # as = [] then None else Some (last (?n # as)))"
        unfolding af using tl Cons by simp
      show "linked (nodes (addToFront ?n ?st1)) None (?n # as)"
        unfolding af using li3 by simp
      have "cached_keys (addToFront ?n ?st1) = cached_keys st @ [k]"
        unfolding af using keys1 by (simp add: cached_keys_def)
      moreover have "rev (map (\<lambda>a. node_key (nodes (addToFront ?n ?st1) a)) (?n # as)) =
          rev (map (\<lambda>a. node_key (nodes st a)) as) @ [k]"
        unfolding af using keys3 n3 by (simp del: fun_upd_apply)
      ultimately show "cached_keys (addToFront ?n ?st1) =
          rev (map (\<lambda>a. node_key (nodes (addToFront ?n ?st1) a)) (?n # as))"
        using ks by simp
      show "distinct (cached_keys (addToFront ?n ?st1))"
        using \<open>cached_keys (addToFront ?n ?st1) = cached_keys st @ [k]\<close> dk k by simp
    qed
    moreover have "cached_keys (addToFront ?n ?st1) = cached_keys st @ [k]"
      unfolding af using keys1 by (simp add: cached_keys_def)
    ultimately show ?thesis by simp
  qed
qed


lemma in_set_tl: "x \<in> set (tl xs) \<Longrightarrow> x \<in> set xs"
  by (cases xs) simp_all

lemma cache_set_shape:
  "map_of (cache st) k = None \<Longrightarrow>
   cache_set k d st =
     (let st2 = (case tail st of
                   Some t \<Rightarrow>
                     (if int (length (cache st)) \<ge> maxSize st
                      then removeTail (st\<lparr>cache := AList.delete (node_key (nodes st t)) (cache st)\<rparr>)
                      else st)
                 | None \<Rightarrow> st)
      in addToFront (fresh st2)
           (st2\<lparr>nodes := (nodes st2)(fresh st2 := \<lparr>node_key = k, node_prev = None, node_next = None\<rparr>),
                fresh := Suc (fresh st2),
                cache := AList.update k \<lparr>entry_data = d, entry_node = fresh st2\<rparr> (cache st2)\<rparr>))"
  by (simp add: cache_set_def Let_def)

lemma removeTail_maxSize [simp]: "maxSize (removeTail st) = maxSize st"
  by (simp add: removeTail_def set_next_def split: option.split)

lemma addToFront_maxSize [simp]: "maxSize (addToFront n st) = maxSize st"
  by (simp add: addToFront_def Let_def set_next_def set_prev_def split: option.split)

lemma cache_set_miss:
  assumes r: "recency_list st as" and k: "k \<notin> set (cached_keys st)" and m: "1 \<le> maxSize st"
  shows "(\<exists>as'. recency_list (cache_set k d st) as') \<and>
         cached_keys (cache_set k d st) =
           (if maxSize st \<le> int (length (cached_keys st)) then tl (cached_keys st)
            else cached_keys st) @ [k] \<and>
         maxSize (cache_set k d st) = maxSize st"
proof -
  from k have none: "map_of (cache st) k = None"
    by (simp add: cached_keys_def map_of_eq_None_iff)
  let ?st2 = "case tail st of
                   Some t \<Rightarrow>
                     (if int (length (cache st)) \<ge> maxSize st
                      then removeTail (st\<lparr>cache := AList.delete (node_key (nodes st t)) (cache st)\<rparr>)
                      else st)
                 | None \<Rightarrow> st"
  from r have tl: "tail st = (if as = [] then None else Some (last as))"
    and ks: "cached_keys st = rev (map (\<lambda>a. node_key (nodes st a)) as)"
    unfolding recency_list_def by blast+
  have len: "length (cache st) = length (cached_keys st)" by (simp add: cached_keys_def)
  have "\<exists>as2. recency_list ?st2 as2 \<and>
      cached_keys ?st2 = (if maxSize st \<le> int (length (cached_keys st)) then tl (cached_keys st)
            else cached_keys st) \<and> maxSize ?st2 = maxSize st"
  proof (cases "as = []")
    case True
    with tl ks m r show ?thesis by (intro exI[of _ as]) simp
  next
    case False
    show ?thesis
    proof (cases "maxSize st \<le> int (length (cached_keys st))")
      case True
      from evict_recency[OF r False] tl False True len show ?thesis
        by (intro exI[of _ "butlast as"]) simp
    next
      case no: False
      with tl False len r show ?thesis by (intro exI[of _ as]) simp
    qed
  qed
  then obtain as2 where r2: "recency_list ?st2 as2"
    and k2: "cached_keys ?st2 = (if maxSize st \<le> int (length (cached_keys st)) then tl (cached_keys st)
            else cached_keys st)" and m2: "maxSize ?st2 = maxSize st"
    by blast
  have "k \<notin> set (cached_keys ?st2)"
    unfolding k2 using k by (auto dest: in_set_tl)
  note af = add_front_recency[OF r2 this, of "\<lparr>entry_data = d, entry_node = fresh ?st2\<rparr>"]
  show ?thesis
    unfolding cache_set_shape[OF none] Let_def using af k2 m2 by auto
qed

lemma lastn_step:
  assumes "length ks \<le> n" "1 \<le> n"
  shows "lastn n ((if n \<le> length ks then tl ks else ks) @ k # rest) = lastn n (ks @ k # rest)"
proof (cases "n \<le> length ks")
  case True
  with assms have len: "length ks = n" by simp
  with assms(2) obtain x xs where ks: "ks = x # xs" by (cases ks) auto
  with len have n: "n = Suc (length xs)" by simp
  show ?thesis unfolding n ks by (simp add: lastn_def)
next
  case False
  then show ?thesis by simp
qed

lemma misses_from:
  assumes "1 \<le> maxSize st" "recency_list st as" "length (cached_keys st) \<le> nat (maxSize st)"
    "distinct (cached_keys st @ miss_keys h vls)"
  shows "cached_keys (cache_after h (miss_calls vls) st) =
           lastn (nat (maxSize st)) (cached_keys st @ miss_keys h vls)"
  using assms
proof (induction vls arbitrary: st as)
  case Nil
  then show ?case by (simp add: lastn_def)
next
  case (Cons vl vls)
  obtain v l where vl: "vl = (v, l)" by (cases vl)
  let ?k = "cache_key h v l"
  let ?d = "repo_getTelemetryByVehicleAndLap (repository st) v l"
  from Cons.prems(4) vl have k: "?k \<notin> set (cached_keys st)" by auto
  then have none: "map_of (cache st) ?k = None"
    by (simp add: cached_keys_def map_of_eq_None_iff)
  then have step: "snd (cache_call h (GetTelemetryByVehicleAndLap v l) st) = cache_set ?k ?d st"
    by (simp add: cache_getTelemetryByVehicleAndLap_def Let_def)
  note cs = cache_set_miss[OF Cons.prems(2) k Cons.prems(1), of ?d]
  from cs obtain as' where r': "recency_list (cache_set ?k ?d st) as'" by blast
  from cs have keys': "cached_keys (cache_set ?k ?d st) =
           (if maxSize st \<le> int (length (cached_keys st)) then tl (cached_keys st)
            else cached_keys st) @ [?k]"
    and m': "maxSize (cache_set ?k ?d st) = maxSize st" by blast+
  have len': "length (cached_keys (cache_set ?k ?d st)) \<le> nat (maxSize st)"
    unfolding keys' using Cons.prems(1,3) by auto
  have dist': "distinct (cached_keys (cache_set ?k ?d st) @ miss_keys h vls)"
    unfolding keys' using Cons.prems(4) vl by (auto dest: in_set_tl simp: distinct_tl)
  from Cons.IH[of "cache_set ?k ?d st" as'] r' len' dist' m' Cons.prems(1)
  have "cached_keys (cache_after h (miss_calls vls) (cache_set ?k ?d st)) =
          lastn (nat (maxSize st)) (cached_keys (cache_set ?k ?d st) @ miss_keys h vls)"
    by simp
  also have "\<dots> = lastn (nat (maxSize st))
      ((if nat (maxSize st) \<le> length (cached_keys st) then tl (cached_keys st) else cached_keys st)
        @ ?k # miss_keys h vls)"
    unfolding keys' using Cons.prems(1) by (simp add: nat_le_iff)
  also have "\<dots> = lastn (nat (maxSize st)) (cached_keys st @ ?k # miss_keys h vls)"
    using Cons.prems(1,3) by (intro lastn_step) simp_all
  finally show ?case using vl step by simp
qed

lemma recency_list_new: "recency_list (new_cache repo m) []"
  by (simp add: recency_list_def new_cache_def cached_keys_def)

text \<open>
  Eviction when no call is a hit: on a new cache of capacity \<open>m \<ge> 1\<close>, after calls that ask for
  pairwise distinct keys, the map holds exactly the last \<open>m\<close> keys asked for (all of them
  when there are fewer), oldest first.
\<close>

lemma misses_keep_most_recent:
  assumes "1 \<le> m" "distinct (miss_keys h vls)"
  shows "cached_keys (cache_after h (miss_calls vls) (new_cache repo m)) =
           lastn (nat m) (miss_keys h vls)"
  using misses_from[of "new_cache repo m" "[]" h vls] recency_list_new[of repo m] assms
  by (simp add: new_cache_def cached_keys_def)

section \<open>Cache keys of counts are unambiguous\<close>

lemma digit_char_cases:
  "d < 10 \<Longrightarrow> d = 0 \<or> d = 1 \<or> d = 2 \<or> d = 3 \<or> d = 4 \<or> d = 5 \<or> d = 6 \<or> d = 7 \<or> d = 8 \<or> d = (9::nat)"
  by arith

lemma digit_val_digit_char: "d < 10 \<Longrightarrow> digit_val (digit_char d) = d"
  using digit_char_cases[of d] by (auto simp: digit_val_def digit_char_def)

lemma digit_char_not_dash: "d < 10 \<Longrightarrow> digit_char d \<noteq> CHR ''-''"
  using digit_char_cases[of d] by (auto simp: digit_char_def)

lemma digits_val_snoc: "digits_val (s @ [c]) = 10 * digits_val s + digit_val c"
  by (simp add: digits_val_def)

lemma digits_val_nat_to_string: "digits_val (nat_to_string n) = n"
proof (induction n rule: nat_to_string.induct)
  case (1 n)
  show ?case
  proof (cases "n < 10")
    case True
    then show ?thesis
      by (subst nat_to_string.simps) (simp add: digits_val_def digit_val_digit_char)
  next
    case False
    with 1 show ?thesis
      by (subst nat_to_string.simps) (simp add: digits_val_snoc digit_val_digit_char)
  qed
qed

lemma nat_to_string_inj: "nat_to_string n = nat_to_string m \<Longrightarrow> n = m"
  by (metis digits_val_nat_to_string)

lemma nat_to_string_no_dash: "CHR ''-'' \<notin> set (nat_to_string n)"
proof (induction n rule: nat_to_string.induct)
  case (1 n)
  show ?case
  proof (cases "n < 10")
    case True
    then show ?thesis
      by (subst nat_to_string.simps) (use digit_char_not_dash[of n] in auto)
  next
    case False
    with 1 show ?thesis
      by (subst nat_to_string.simps) (use digit_char_not_dash[of "n mod 10"] in auto)
  qed
qed

lemma split_at_first:
  "x \<notin> set xs \<Longrightarrow> x \<notin> set ys \<Longrightarrow> xs @ x # a = ys @ x # b \<Longrightarrow> xs = ys \<and> a = b"
proof (induction xs arbitrary: ys)
  case Nil
  then show ?case by (cases ys) auto
next
  case (Cons z zs)
  then show ?case by (cases ys) auto
qed

lemma split_at_last_dash:
  assumes "v @ CHR ''-'' # ds = v' @ CHR ''-'' # ds'"
    and "CHR ''-'' \<notin> set ds" and "CHR ''-'' \<notin> set ds'"
  shows "v = v' \<and> ds = ds'"
proof -
  have "rev (v @ CHR ''-'' # ds) = rev (v' @ CHR ''-'' # ds')"
    using assms(1) by simp
  then have "rev ds @ CHR ''-'' # rev v = rev ds' @ CHR ''-'' # rev v'"
    by simp
  moreover have "CHR ''-'' \<notin> set (rev ds)" "CHR ''-'' \<notin> set (rev ds')"
    using assms by auto
  ultimately have "rev ds = rev ds' \<and> rev v = rev v'"
    by (rule split_at_first[rotated 2])
  then show ?thesis by simp
qed

lemma cache_key_inj:
  assumes "l = of_int \<lfloor>l\<rfloor>" "0 \<le> l" "l' = of_int \<lfloor>l'\<rfloor>" "0 \<le> l'"
    and "cache_key h v l = cache_key h v' l'"
  shows "v = v' \<and> l = l'"
proof -
  have a: "number_to_string h l = nat_to_string (nat \<lfloor>l\<rfloor>)"
    using assms(1,2) by (simp add: number_to_string_def int_to_string_def)
  have b: "number_to_string h l' = nat_to_string (nat \<lfloor>l'\<rfloor>)"
    using assms(3,4) by (simp add: number_to_string_def int_to_string_def)
  have "v = v' \<and> nat_to_string (nat \<lfloor>l\<rfloor>) = nat_to_string (nat \<lfloor>l'\<rfloor>)"
    using assms(5) split_at_last_dash[of v "nat_to_string (nat \<lfloor>l\<rfloor>)" v' "nat_to_string (nat \<lfloor>l'\<rfloor>)"]
    by (simp add: cache_key_def a b nat_to_string_no_dash)
  then have "v = v'" "nat \<lfloor>l\<rfloor> = nat \<lfloor>l'\<rfloor>" by (auto dest: nat_to_string_inj)
  moreover have "\<lfloor>l\<rfloor> \<ge> 0" "\<lfloor>l'\<rfloor> \<ge> 0" using assms(2,4) by auto
  ultimately have e: "\<lfloor>l\<rfloor> = \<lfloor>l'\<rfloor>" by linarith
  have "l = of_int \<lfloor>l'\<rfloor>" using assms(1) e by simp
  then have "l = l'" using assms(3) by simp
  with \<open>v = v'\<close> show ?thesis by simp
qed


section \<open>The cache answers as the repository does\<close>

lemma set_prev_fields [simp]:
  "cache (set_prev a p st) = cache st" "repository (set_prev a p st) = repository st"
  "head (set_prev a p st) = head st" "tail (set_prev a p st) = tail st"
  "maxSize (set_prev a p st) = maxSize st"
  by (simp_all add: set_prev_def)

lemma set_next_fields [simp]:
  "cache (set_next a p st) = cache st" "repository (set_next a p st) = repository st"
  "head (set_next a p st) = head st" "tail (set_next a p st) = tail st"
  "maxSize (set_next a p st) = maxSize st"
  by (simp_all add: set_next_def)

lemma addToFront_fields [simp]:
  "cache (addToFront n st) = cache st" "repository (addToFront n st) = repository st"
  by (simp_all add: addToFront_def Let_def split: option.split)

lemma unlink_fields [simp]:
  "cache (unlink n st) = cache st" "repository (unlink n st) = repository st"
  "head (unlink n st) = head st" "tail (unlink n st) = tail st"
  "maxSize (unlink n st) = maxSize st"
  by (simp_all add: unlink_def Let_def split: option.split)

lemma moveToFront_fields [simp]:
  "cache (moveToFront k st) = cache st" "repository (moveToFront k st) = repository st"
  by (simp_all add: moveToFront_def Let_def split: option.split)

lemma remove_fields [simp]:
  "cache (remove k st) = cache st" "repository (remove k st) = repository st"
  "maxSize (remove k st) = maxSize st"
  by (simp_all add: remove_def Let_def split: option.split)

lemma removeTail_fields [simp]:
  "cache (removeTail st) = cache st" "repository (removeTail st) = repository st"
  by (simp_all add: removeTail_def split: option.split)

lemma cache_set_repository [simp]: "repository (cache_set k d st) = repository st"
  by (simp add: cache_set_def Let_def split: option.split)

lemma cache_set_lookup:
  assumes "map_of (cache (cache_set k d st)) k' = Some e"
  shows "(k' = k \<and> entry_data e = d) \<or> map_of (cache st) k' = Some e"
  using assms
  by (auto simp: cache_set_def Let_def update_conv' delete_conv' split: option.splits if_splits)

lemma coherent_new: "coherent h (new_cache repo m)"
  by (simp add: coherent_def new_cache_def)

lemma cache_call_refines:
  assumes "coherent h st" and "lap_is_count c"
  shows "fst (cache_call h c st) = fst (repo_call c (repository st)) \<and>
         repository (snd (cache_call h c st)) = snd (repo_call c (repository st)) \<and>
         coherent h (snd (cache_call h c st))"
proof (cases c)
  case (GetTelemetryByVehicleAndLap v l)
  with assms(2) have l: "l = of_int \<lfloor>l\<rfloor>" "0 \<le> l" by auto
  show ?thesis
  proof (cases "map_of (cache st) (cache_key h v l)")
    case None
    have "coherent h (cache_set (cache_key h v l) (repo_getTelemetryByVehicleAndLap (repository st) v l) st)"
      unfolding coherent_def
    proof (intro allI impI, elim conjE)
      fix k e v' l'
      assume a: "map_of (cache (cache_set (cache_key h v l)
                   (repo_getTelemetryByVehicleAndLap (repository st) v l) st)) k = Some e"
        and l': "l' = of_int \<lfloor>l'\<rfloor>" "0 \<le> l'" and k: "cache_key h v' l' = k"
      from cache_set_lookup[OF a] show "entry_data e =
          repo_getTelemetryByVehicleAndLap
           (repository (cache_set (cache_key h v l)
                   (repo_getTelemetryByVehicleAndLap (repository st) v l) st)) v' l'"
      proof
        assume "k = cache_key h v l \<and> entry_data e = repo_getTelemetryByVehicleAndLap (repository st) v l"
        moreover then have "v' = v \<and> l' = l"
          using cache_key_inj[OF l' l, of h v' v] k by simp
        ultimately show ?thesis by simp
      next
        assume "map_of (cache st) k = Some e"
        with assms(1) l' k show ?thesis by (auto simp: coherent_def)
      qed
    qed
    with None GetTelemetryByVehicleAndLap show ?thesis
      by (simp add: cache_getTelemetryByVehicleAndLap_def Let_def)
  next
    case (Some e)
    with assms(1) l have "entry_data e = repo_getTelemetryByVehicleAndLap (repository st) v l"
      by (auto simp: coherent_def)
    moreover have "coherent h (moveToFront (cache_key h v l) st)"
      using assms(1) by (simp add: coherent_def)
    ultimately show ?thesis using Some GetTelemetryByVehicleAndLap
      by (simp add: cache_getTelemetryByVehicleAndLap_def Let_def)
  qed
next
  case (GetTelemetryByTimeRange v s e)
  with assms(1) show ?thesis by (simp add: cache_getTelemetryByTimeRange_def)
next
  case GetAllVehicleIds
  with assms(1) show ?thesis by (simp add: cache_getAllVehicleIds_def)
next
  case (GetMaxLapNumber v)
  with assms(1) show ?thesis by (simp add: cache_getMaxLapNumber_def)
next
  case (SaveTelemetry frames)
  then show ?thesis by (simp add: cache_saveTelemetry_def coherent_def)
next
  case Clear
  then show ?thesis by (simp add: cache_clear_def coherent_def)
qed

lemma cache_run_refines:
  "coherent h st \<Longrightarrow> \<forall>c\<in>set cs. lap_is_count c \<Longrightarrow> cache_run h cs st = repo_run cs (repository st)"
proof (induction cs arbitrary: st)
  case Nil
  then show ?case by simp
next
  case (Cons c cs)
  from Cons.prems have c: "lap_is_count c" by simp
  note step = cache_call_refines[OF Cons.prems(1) c]
  have "cache_run h cs (snd (cache_call h c st)) = repo_run cs (repository (snd (cache_call h c st)))"
    using Cons.IH[of "snd (cache_call h c st)"] step Cons.prems(2) by simp
  with step show ?case by (simp add: case_prod_unfold Let_def)
qed


text \<open>
  C8 as stated fails: the key \<^verbatim>\<open>`${vehicleId}-${lap}`\<close> of vehicle \<open>A-\<close>, lap 1 is also the
  key of vehicle \<open>A\<close>, lap -1. After a frame of (\<open>A-\<close>, 1) is saved and read through the
  cache, the cache answers the read of (\<open>A\<close>, -1) with that frame; the repository answers
  with no frame.
\<close>

theorem cache_key_collision_counterexample:
  "cache_run sample_host
     [SaveTelemetry [sample_frame ''A-'' 1], GetTelemetryByVehicleAndLap ''A-'' 1,
      GetTelemetryByVehicleAndLap ''A'' (-1)] (new_cache [] 100) \<noteq>
   repo_run
     [SaveTelemetry [sample_frame ''A-'' 1], GetTelemetryByVehicleAndLap ''A-'' 1,
      GetTelemetryByVehicleAndLap ''A'' (-1)] []"
  by code_simp

text \<open>
  C8, amended: for every call sequence whose lap arguments are counts (non-negative whole
  numbers), every wrapped repository and every capacity, the cache returns call for call
  what the repository returns for the same sequence.
\<close>

theorem cache_refines_repository:
  assumes "list_all lap_is_count cs"
  shows "cache_run h cs (new_cache repo m) = repo_run cs repo"
proof -
  from assms have "\<forall>c\<in>set cs. lap_is_count c"
    by (simp add: list_all_iff)
  from cache_run_refines[OF coherent_new this, of h repo m] show ?thesis
    by (simp add: new_cache_def)
qed

theorem cache_refines_repository_witness:
  "list_all lap_is_count
     [SaveTelemetry [sample_frame ''004-78'' 3], GetTelemetryByVehicleAndLap ''004-78'' 3,
      GetTelemetryByVehicleAndLap ''004-78'' 3, GetMaxLapNumber ''004-78'',
      GetTelemetryByVehicleAndLap ''004-78'' 4, Clear,
      GetTelemetryByVehicleAndLap ''004-78'' 3] \<and>
   cache_run sample_host
     [SaveTelemetry [sample_frame ''004-78'' 3], GetTelemetryByVehicleAndLap ''004-78'' 3,
      GetTelemetryByVehicleAndLap ''004-78'' 3, GetMaxLapNumber ''004-78'',
      GetTelemetryByVehicleAndLap ''004-78'' 4, Clear,
      GetTelemetryByVehicleAndLap ''004-78'' 3] (new_cache [] 1) =
   repo_run
     [SaveTelemetry [sample_frame ''004-78'' 3], GetTelemetryByVehicleAndLap ''004-78'' 3,
      GetTelemetryByVehicleAndLap ''004-78'' 3, GetMaxLapNumber ''004-78'',
      GetTelemetryByVehicleAndLap ''004-78'' 4, Clear,
      GetTelemetryByVehicleAndLap ''004-78'' 3] []"
proof -
  have counts: "list_all lap_is_count
     [SaveTelemetry [sample_frame ''004-78'' 3], GetTelemetryByVehicleAndLap ''004-78'' 3,
      GetTelemetryByVehicleAndLap ''004-78'' 3, GetMaxLapNumber ''004-78'',
      GetTelemetryByVehicleAndLap ''004-78'' 4, Clear,
      GetTelemetryByVehicleAndLap ''004-78'' 3]"
    by simp
  from cache_refines_repository[OF counts, of sample_host "[]" 1] counts
  show ?thesis by blast
qed

section \<open>Validity of rows\<close>








lemma valid_row_typed:
  assumes "isValidRow row"
  shows "row_timestamp row = Val (tr_timestamp (typed_row row))"
    "row_vehicle_id row = Val (tr_vehicle_id (typed_row row))"
    "row_lap row = Val (JNum (tr_lap (typed_row row)))"
    "row_telemetry_name row = Val (tr_telemetry_name (typed_row row))"
    "row_telemetry_value row = Val (tr_telemetry_value (typed_row row))"
proof -
  from assms obtain ts v n where "row_timestamp row = Val ts" "row_vehicle_id row = Val v"
    "row_telemetry_name row = Val n"
    by (cases "row_timestamp row"; cases "row_vehicle_id row"; cases "row_telemetry_name row")
      (auto simp: isValidRow_def)
  moreover from assms obtain l where "row_lap row = Val (JNum l)"
    by (cases "row_lap row" rule: is_number.cases) (auto simp: isValidRow_def)
  moreover from assms obtain x where "row_telemetry_value row = Val x"
    by (cases "row_telemetry_value row") (auto simp: isValidRow_def)
  ultimately show "row_timestamp row = Val (tr_timestamp (typed_row row))"
    "row_vehicle_id row = Val (tr_vehicle_id (typed_row row))"
    "row_lap row = Val (JNum (tr_lap (typed_row row)))"
    "row_telemetry_name row = Val (tr_telemetry_name (typed_row row))"
    "row_telemetry_value row = Val (tr_telemetry_value (typed_row row))"
    by (simp_all add: typed_row_def)
qed



section \<open>A lap filter of zero\<close>





section \<open>The cap on matched rows\<close>

lemma process_rows_skipped:
  "rowCount st \<le> skipRows opts \<Longrightarrow> process_rows h opts rows st = st"
  by (induction rows) simp_all

lemma accepted_rows_Cons:
  "accepted_rows opts (raw # rest) =
     (if isValidRow (normalizeRow raw) \<and> \<not> filtered_out (opt_filter opts) (typed_row (normalizeRow raw))
      then typed_row (normalizeRow raw) # accepted_rows opts rest else accepted_rows opts rest)"
  by (simp add: accepted_rows_def)

lemma process_rows_take:
  assumes "\<not> aborted st" "int (length (rawRows st)) < maxRows opts" "skipRows opts < rowCount st"
  shows "rawRows (process_rows h opts rows st) =
           take (nat (maxRows opts)) (rawRows st @ accepted_rows opts rows) \<and>
         rowCount (process_rows h opts rows st) = rowCount st \<and>
         (aborted (process_rows h opts rows st) \<longleftrightarrow>
            maxRows opts \<le> int (length (rawRows st @ accepted_rows opts rows))) \<and>
         resolved (process_rows h opts rows st) =
           (if aborted (process_rows h opts rows st)
            then Some (pivotToFrames h (rawRows (process_rows h opts rows st)))
            else resolved st)"
  using assms
proof (induction rows arbitrary: st)
  case Nil
  then show ?case by (simp add: accepted_rows_def)
next
  case (Cons raw rest)
  let ?row = "typed_row (normalizeRow raw)"
  show ?case
  proof (cases "isValidRow (normalizeRow raw) \<and> \<not> filtered_out (opt_filter opts) ?row")
    case False
    then have "process_rows h opts (raw # rest) st = process_rows h opts rest st"
      by (auto simp: Let_def)
    moreover from False have "accepted_rows opts (raw # rest) = accepted_rows opts rest"
      by (simp add: accepted_rows_Cons)
    ultimately show ?thesis using Cons.IH[OF Cons.prems] by simp
  next
    case True
    let ?st' = "st\<lparr>rawRows := rawRows st @ [?row]\<rparr>"
    from True have acc: "accepted_rows opts (raw # rest) = ?row # accepted_rows opts rest"
      by (simp add: accepted_rows_Cons)
    show ?thesis
    proof (cases "int (length (rawRows ?st')) \<ge> maxRows opts")
      case full: True
      with True Cons.prems have
        "process_rows h opts (raw # rest) st =
           ?st'\<lparr>aborted := True, resolved := Some (pivotToFrames h (rawRows ?st'))\<rparr>"
        by (simp add: Let_def)
      moreover from full Cons.prems(2) have "nat (maxRows opts) = Suc (length (rawRows st))"
        by simp
      ultimately show ?thesis using full by (simp add: acc)
    next
      case False
      with True Cons.prems have
        "process_rows h opts (raw # rest) st = process_rows h opts rest ?st'"
        by (simp add: Let_def)
      moreover have "\<not> aborted ?st'" "int (length (rawRows ?st')) < maxRows opts"
        "skipRows opts < rowCount ?st'"
        using False Cons.prems by simp_all
      note Cons.IH[OF this]
      ultimately show ?thesis by (simp add: acc)
    qed
  qed
qed

lemma take_take_append: "take n (take n xs @ ys) = take n (xs @ ys)"
  by (cases "n \<le> length xs") (simp_all add: min_def)

lemma take_nat_all: "int (length xs) \<le> m \<Longrightarrow> take (nat m) xs = xs"
  by simp

lemma chunk_take:
  assumes "1 \<le> maxRows opts" "cap_inv h opts st" "\<not> aborted st"
  shows "cap_inv h opts (chunk h opts c st) \<and>
         rawRows (chunk h opts c st) =
           take (nat (maxRows opts))
             (rawRows st @ (if rowCount st + int (length c) \<le> skipRows opts then []
                            else accepted_rows opts c)) \<and>
         rowCount (chunk h opts c st) = rowCount st + int (length c)"
proof (cases "rowCount st + int (length c) \<le> skipRows opts")
  case True
  then have "chunk h opts c st = st\<lparr>rowCount := rowCount st + int (length c)\<rparr>"
    using assms(3) by (simp add: chunk_def process_rows_skipped)
  with assms True show ?thesis by (simp add: cap_inv_def take_nat_all)
next
  case False
  let ?st = "st\<lparr>rowCount := rowCount st + int (length c)\<rparr>"
  have lt: "int (length (rawRows st)) < maxRows opts"
    using assms(2,3) by (auto simp: cap_inv_def)
  have "\<not> aborted ?st" "int (length (rawRows ?st)) < maxRows opts" "skipRows opts < rowCount ?st"
    using assms(3) lt False by simp_all
  note p = process_rows_take[OF this, of h c]
  have c: "chunk h opts c st = process_rows h opts c ?st"
    using assms(3) by (simp add: chunk_def)
  from p False show ?thesis
    unfolding c cap_inv_def using assms(1) by auto
qed

lemma fold_chunk_take:
  assumes "1 \<le> maxRows opts"
  shows "cap_inv h opts st \<Longrightarrow> (\<not> aborted st \<Longrightarrow> rowCount st = n) \<Longrightarrow>
         cap_inv h opts (fold (chunk h opts) cs st) \<and>
         rawRows (fold (chunk h opts) cs st) =
           take (nat (maxRows opts)) (rawRows st @ matched opts n cs)"
proof (induction cs arbitrary: st n)
  case Nil
  then show ?case by (simp add: cap_inv_def take_nat_all)
next
  case (Cons c cs)
  show ?case
  proof (cases "aborted st")
    case True
    then have same: "chunk h opts c st = st" by (simp add: chunk_def)
    from True Cons.prems(1) have len: "length (rawRows st) = nat (maxRows opts)"
      by (auto simp: cap_inv_def)
    from Cons.IH[of st "n + int (length c)"] Cons.prems(1) True
    have "cap_inv h opts (fold (chunk h opts) cs st) \<and>
         rawRows (fold (chunk h opts) cs st) =
           take (nat (maxRows opts)) (rawRows st @ matched opts (n + int (length c)) cs)"
      by simp
    with same len show ?thesis by simp
  next
    case False
    with Cons.prems have n: "rowCount st = n" by simp
    note ch = chunk_take[OF assms Cons.prems(1) False, of c]
    from ch have "cap_inv h opts (chunk h opts c st)" by simp
    moreover from ch n have "\<not> aborted (chunk h opts c st) \<Longrightarrow>
        rowCount (chunk h opts c st) = n + int (length c)" by simp
    ultimately have ih: "cap_inv h opts (fold (chunk h opts) cs (chunk h opts c st)) \<and>
         rawRows (fold (chunk h opts) cs (chunk h opts c st)) =
           take (nat (maxRows opts))
             (rawRows (chunk h opts c st) @ matched opts (n + int (length c)) cs)"
      by (rule Cons.IH)
    let ?A = "if n + int (length c) \<le> skipRows opts then [] else accepted_rows opts c"
    from ch n have r: "rawRows (chunk h opts c st) = take (nat (maxRows opts)) (rawRows st @ ?A)"
      by simp
    have "rawRows (fold (chunk h opts) (c # cs) st) =
            take (nat (maxRows opts))
              (take (nat (maxRows opts)) (rawRows st @ ?A) @ matched opts (n + int (length c)) cs)"
      using ih r by simp
    also have "\<dots> = take (nat (maxRows opts)) ((rawRows st @ ?A) @ matched opts (n + int (length c)) cs)"
      by (rule take_take_append)
    also have "(rawRows st @ ?A) @ matched opts (n + int (length c)) cs = rawRows st @ matched opts n (c # cs)"
      by simp
    finally show ?thesis using ih by simp
  qed
qed

lemma fold_chunk_aborted: "aborted st \<Longrightarrow> fold (chunk h opts) cs st = st"
  by (induction cs) (simp_all add: chunk_def)

lemma cap_inv_start: "1 \<le> maxRows opts \<Longrightarrow> cap_inv h opts start"
  by (simp add: cap_inv_def start_def)

text \<open>
  C3. With \<^verbatim>\<open>maxRows\<close> set to \<open>M \<ge> 1\<close>, after every chunk sequence the accumulated rows are
  the first \<open>M\<close> matched rows of the input, so never more than \<open>M\<close>; the parser has aborted
  exactly when \<open>M\<close> rows are accumulated; once it has, the promise is resolved with the
  pivot of exactly these rows and no later chunk changes the state; and the call returns
  the pivot of the accumulated rows.
\<close>

theorem cap_respected:
  assumes "1 \<le> M" and "opt_maxRows opts = Some M"
  shows "rawRows (chunks_done h opts cs) = take (nat M) (matched opts 0 cs) \<and>
         int (length (rawRows (chunks_done h opts cs))) \<le> M \<and>
         (aborted (chunks_done h opts cs) \<longleftrightarrow> int (length (rawRows (chunks_done h opts cs))) = M) \<and>
         (aborted (chunks_done h opts cs) \<longrightarrow>
            resolved (chunks_done h opts cs) = Some (pivotToFrames h (rawRows (chunks_done h opts cs))) \<and>
            chunks_done h opts (cs @ later) = chunks_done h opts cs) \<and>
         parseFile h opts cs = Some (pivotToFrames h (rawRows (chunks_done h opts cs)))"
proof -
  from assms have m: "maxRows opts = M" "1 \<le> maxRows opts" by (simp_all add: maxRows_def)
  from fold_chunk_take[OF m(2) cap_inv_start[OF m(2)], where h = h and n = 0 and cs = cs]
  have inv: "cap_inv h opts (chunks_done h opts cs)"
    and rows: "rawRows (chunks_done h opts cs) = take (nat M) (matched opts 0 cs)"
    by (simp_all add: chunks_done_def start_def m)
  have later: "aborted (chunks_done h opts cs) \<Longrightarrow> chunks_done h opts (cs @ later) = chunks_done h opts cs"
    by (simp add: chunks_done_def fold_chunk_aborted)
  have res: "parseFile h opts cs = Some (pivotToFrames h (rawRows (chunks_done h opts cs)))"
    using inv by (auto simp: parseFile_def complete_def cap_inv_def)
  from inv rows later res show ?thesis
    unfolding cap_inv_def m by auto
qed


theorem cap_respected_witness:
  "(1::int) \<le> 2 \<and> opt_maxRows (sample_options 2 ''V1'' 3) = Some 2 \<and>
   aborted (chunks_done sample_host (sample_options 2 ''V1'' 3) sample_chunks) \<and>
   int (length (rawRows (chunks_done sample_host (sample_options 2 ''V1'' 3) sample_chunks))) = 2 \<and>
   chunks_done sample_host (sample_options 2 ''V1'' 3)
       (sample_chunks @ [[sample_record ''2025-04-26T18:03:30.000Z'' ''GR86-V1'' 3 ''Speed'' 60]]) =
     chunks_done sample_host (sample_options 2 ''V1'' 3) sample_chunks"
proof -
  have m: "(1::int) \<le> 2" by simp
  have o: "opt_maxRows (sample_options 2 ''V1'' 3) = Some 2"
    by (simp add: sample_options_def)
  have a: "aborted (chunks_done sample_host (sample_options 2 ''V1'' 3) sample_chunks)"
    by code_simp
  from cap_respected[OF m o, of sample_host sample_chunks
      "[[sample_record ''2025-04-26T18:03:30.000Z'' ''GR86-V1'' 3 ''Speed'' 60]]"] m o a
  show ?thesis by blast
qed

section \<open>Frames of the pivot step\<close>








lemma set_update_cases:
  "(k', v') \<in> set (AList.update k v al) \<Longrightarrow> (k', v') = (k, v) \<or> (k', v') \<in> set al"
  by (induction al) (auto split: if_splits)





lemma pivot_row_has_lap:
  assumes "\<And>k m. (k, m) \<in> set groups \<Longrightarrow> has_lap m" "(k, m) \<in> set (pivot_row h row groups)"
  shows "has_lap m"
proof -
  define key where "key = tr_timestamp row @ ''_'' @ tr_vehicle_id row @ ''_'' @ number_to_string h (tr_lap row)"
  define m0 where "m0 = (case map_of groups key of None \<Rightarrow> [] | Some m \<Rightarrow> m)"
  define m1 where "m1 = AList.update (toLowerCase (tr_telemetry_name row)) (MNum (tr_telemetry_value row)) m0"
  define m2 where "m2 = (if map_of m1 ''_timestamp'' = None
                then AList.update ''_timestamp'' (getTime_mval h (tr_timestamp row)) m1 else m1)"
  define m3 where "m3 = (if map_of m2 ''_vehicle_id'' = None
                then AList.update ''_vehicle_id'' (MStr (tr_vehicle_id row)) m2 else m2)"
  define m4 where "m4 = (if map_of m3 ''_lap'' = None
                then AList.update ''_lap'' (MNum (tr_lap row)) m3 else m3)"
  have pr: "pivot_row h row groups = AList.update key m4 groups"
    by (simp only: pivot_row_def Let_def key_def m0_def m1_def m2_def m3_def m4_def)
  have m0: "m0 = [] \<or> has_lap m0"
  proof (cases "map_of groups key")
    case None
    then show ?thesis by (simp add: m0_def)
  next
    case (Some x)
    then have "(key, x) \<in> set groups" by (rule map_of_SomeD)
    with assms(1) Some show ?thesis by (simp add: m0_def)
  qed
  have "map_of m1 ''_lap'' = None \<or> has_lap m1"
    using m0 by (auto simp: m1_def has_lap_def update_conv')
  then have "map_of m3 ''_lap'' = None \<or> has_lap m3"
    by (auto simp: m3_def m2_def has_lap_def update_conv')
  then have "has_lap m4"
    by (auto simp: m4_def has_lap_def update_conv')
  moreover from assms(2) have "(k, m) = (key, m4) \<or> (k, m) \<in> set groups"
    unfolding pr by (rule set_update_cases)
  ultimately show ?thesis using assms(1) by auto
qed

lemma pivot_groups_have_lap:
  "(k, m) \<in> set (pivot_groups h rows) \<Longrightarrow> has_lap m"
proof -
  have "(\<And>k m. (k, m) \<in> set groups \<Longrightarrow> has_lap m) \<Longrightarrow>
        (k, m) \<in> set (fold (pivot_row h) rows groups) \<Longrightarrow> has_lap m" for groups
  proof (induction rows arbitrary: groups)
    case Nil
    then show ?case by simp
  next
    case (Cons row rows)
    show ?case
      using Cons.IH[of "pivot_row h row groups"] pivot_row_has_lap[of groups _ _ h row]
        Cons.prems by auto
  qed
  from this[of "[]"] show "(k, m) \<in> set (pivot_groups h rows) \<Longrightarrow> has_lap m"
    by (simp add: pivot_groups_def)
qed





section \<open>The vehicle and lap filter\<close>








text \<open>
  A record whose metric name is a reserved key of the metric table writes its value over
  what the table records for the group: here the frame of a row of lap 3 comes out with
  lap 99.
\<close>

lemma reserved_metric_name_sets_lap:
  "map_option (map (\<lambda>f. (vehicleId f, lap f)))
     (parseFile sample_host (sample_options 100 ''V1'' 3)
        [[sample_record ''2025-04-26T18:00:00.000Z'' ''GR86-V1'' 3 ''_lap'' 99]]) =
   Some [(''V1'', 99)]"
  by code_simp



section \<open>Serialising and rebuilding\<close>

lemma new_TelemetryFrame_valid:
  assumes "new_TelemetryFrame h d = Inr f"
  shows "vehicleId f \<noteq> []" "\<not> blank (vehicleId f)" "0 \<le> lap f" "0 \<le> speed f"
    "0 \<le> throttlePos f" "throttlePos f \<le> 100" "0 \<le> brakePos f" "brakePos f \<le> 100"
  using assms by (auto simp: new_TelemetryFrame_def split: option.splits if_splits)

lemma frame_round_trip:
  assumes "new_TelemetryFrame h d = Inr f" "iso_round_trip h (timestamp f)"
  shows "new_TelemetryFrame h (frame_toJSON h f) = Inr f"
  using new_TelemetryFrame_valid[OF assms(1)] assms(2)
  by (simp add: new_TelemetryFrame_def frame_toJSON_def iso_round_trip_def not_less)

lemma new_Vehicle_again:
  assumes "new_Vehicle h d = Inr v"
  shows "new_Vehicle h (vehicle_toJSON v) = Inr v"
  using assms by (auto simp: new_Vehicle_def vehicle_toJSON_def split: if_splits)

lemma new_Lap_valid:
  assumes "new_Lap h d = Inr l"
  shows "0 \<le> lapNumber l" "startTime l < endTime l"
  using assms by (auto simp: new_Lap_def split: option.splits if_splits)

lemma lap_round_trip:
  assumes "new_Vehicle h vd = Inr (vehicle l)" "new_Lap h ld = Inr l"
    "iso_round_trip h (startTime l)" "iso_round_trip h (endTime l)"
  shows "lap_rebuild h (lap_toJSON h l) = Inr l"
  using new_Vehicle_again[OF assms(1)] new_Lap_valid[OF assms(2)] assms(3,4)
  by (simp add: lap_rebuild_def lap_toJSON_def new_Lap_def iso_round_trip_def not_less)

text \<open>
  C9. A frame that the constructor accepted is what the constructor builds again from
  the frame's \<open>toJSON\<close>, and a lap that the constructor accepted, on a vehicle that its
  constructor accepted, is what is rebuilt from the lap's \<open>toJSON\<close>: every field is the
  same, so the derived duration is, and it is the duration stored in the plain form. The
  runtime is assumed to parse the ISO string of each instant back to the instant.
\<close>

theorem serialise_round_trip:
  "(new_TelemetryFrame h d = Inr f \<and> iso_round_trip h (timestamp f) \<longrightarrow>
      new_TelemetryFrame h (frame_toJSON h f) = Inr f) \<and>
   (new_Vehicle h vd = Inr (vehicle l) \<and> new_Lap h ld = Inr l \<and>
    iso_round_trip h (startTime l) \<and> iso_round_trip h (endTime l) \<longrightarrow>
      lap_rebuild h (lap_toJSON h l) = Inr l \<and>
      (\<forall>l'. lap_rebuild h (lap_toJSON h l) = Inr l' \<longrightarrow>
         durationMs l' = durationMs l \<and> durationMs l' = lj_durationMs (lap_toJSON h l)))"
  using frame_round_trip[of h d f] lap_round_trip[of h vd l ld]
  by (auto simp: lap_toJSON_def)

theorem serialise_round_trip_witness:
  "new_TelemetryFrame sample_host (frame_toJSON sample_host sample_pivot_frame) = Inr sample_pivot_frame \<and>
   iso_round_trip sample_host (timestamp sample_pivot_frame) \<and>
   new_Vehicle sample_host sample_vehicle_data = Inr (vehicle sample_lap) \<and>
   new_Lap sample_host sample_lap_data = Inr sample_lap \<and>
   iso_round_trip sample_host (startTime sample_lap) \<and>
   iso_round_trip sample_host (endTime sample_lap) \<and>
   lap_rebuild sample_host (lap_toJSON sample_host sample_lap) = Inr sample_lap \<and>
   lj_durationMs (lap_toJSON sample_host sample_lap) = 120000"
proof -
  have i: "iso_round_trip sample_host 1745690400000" "iso_round_trip sample_host 1745690520000"
    by (simp_all add: iso_round_trip_def sample_host_def)
  have f: "new_TelemetryFrame sample_host
      \<lparr>fd_timestamp = DateObject (Some 1745690400000), fd_vehicleId = ''V1'', fd_lap = 3,
       fd_speed = 120.5, fd_throttlePos = 100, fd_brakePos = 0, fd_gpsLatitude = 0,
       fd_gpsLongitude = 0, fd_steeringAngle = None, fd_gear = None\<rparr> = Inr sample_pivot_frame"
    by (simp add: new_TelemetryFrame_def sample_pivot_frame_def blank_def is_space_def)
  have it: "iso_round_trip sample_host (timestamp sample_pivot_frame)"
    using i by (simp add: sample_pivot_frame_def)
  have v: "new_Vehicle sample_host sample_vehicle_data = Inr (vehicle sample_lap)"
    by (simp add: new_Vehicle_def sample_vehicle_data_def sample_lap_def sample_vehicle_def
        blank_def is_space_def car_number_to_string_def number_to_string_def int_to_string_def
        nat_to_string.simps[of 78] nat_to_string.simps[of 7] digit_char_def)
  have n: "new_Lap sample_host sample_lap_data = Inr sample_lap"
    by (simp add: new_Lap_def sample_lap_data_def sample_lap_def sample_host_def)
  have s: "iso_round_trip sample_host (startTime sample_lap)"
    "iso_round_trip sample_host (endTime sample_lap)"
    using i by (simp_all add: sample_lap_def)
  have dur: "lj_durationMs (lap_toJSON sample_host sample_lap) = 120000"
    by (simp add: lap_toJSON_def durationMs_def sample_lap_def)
  from serialise_round_trip[of sample_host _ sample_pivot_frame sample_vehicle_data sample_lap
      sample_lap_data] f it v n s dur
  show ?thesis by blast
qed

section \<open>Lap boundaries\<close>















end
